theory Spec2Isabelle
  imports Main "HOL-Library.Multiset"
begin

section \<open>Klondike solitaire: the rule engine of the Tkinter version\<close>

text \<open>
  The repository holds two solitaire programs. The first part of this theory embeds the
  rule engine of the Tkinter version (class \<open>SolitaireGame\<close> with \<open>stock\<close>, \<open>waste\<close>,
  \<open>foundations\<close>, \<open>tableau\<close> and cards that carry a \<open>face_up\<close> flag); the second part
  embeds the pile rules, the deck cycling and the card move of \<open>text.py\<close>.
\<close>

subsection \<open>Cards\<close>

datatype Suit = SPADE | HEART | DIAMOND | CLUB

text \<open>
  The Tkinter version spells a rank as one of the strings of \<open>RANKS\<close>
  (\<open>'A', '2', ..., '10', 'J', 'Q', 'K'\<close>), \<open>text.py\<close> as a member of the enum \<open>Rank\<close>.
  Both are the same thirteen values; the constructors carry the enum's names.
\<close>

datatype Rank = ACE | TWO | THREE | FOUR | FIVE | SIX | SEVEN | EIGHT | NINE | TEN
  | JACK | QUEEN | KING

definition RANKS :: "Rank list" where
  "RANKS = [ACE, TWO, THREE, FOUR, FIVE, SIX, SEVEN, EIGHT, NINE, TEN, JACK, QUEEN, KING]"

text \<open>\<open>RANK_VALUES = {rank: i+1 for i, rank in enumerate(RANKS)}\<close>, tabulated.\<close>

fun RANK_VALUES :: "Rank \<Rightarrow> int" where
  "RANK_VALUES ACE = 1"
| "RANK_VALUES TWO = 2"
| "RANK_VALUES THREE = 3"
| "RANK_VALUES FOUR = 4"
| "RANK_VALUES FIVE = 5"
| "RANK_VALUES SIX = 6"
| "RANK_VALUES SEVEN = 7"
| "RANK_VALUES EIGHT = 8"
| "RANK_VALUES NINE = 9"
| "RANK_VALUES TEN = 10"
| "RANK_VALUES JACK = 11"
| "RANK_VALUES QUEEN = 12"
| "RANK_VALUES KING = 13"

record Card =
  suit :: Suit
  rank :: Rank
  face_up :: bool

definition color :: "Card \<Rightarrow> string" where
  "color c = (if suit c \<in> set [HEART, DIAMOND] then ''red'' else ''black'')"

text \<open>The identity of a card: the pair that never changes.\<close>

definition ident :: "Card \<Rightarrow> Suit \<times> Rank" where
  "ident c = (suit c, rank c)"

subsection \<open>Python list indexing\<close>

datatype py_error = IndexError

text \<open>\<open>xs[i]\<close>: a negative index counts from the end, anything out of range raises.\<close>

definition py_index :: "'a list \<Rightarrow> int \<Rightarrow> nat option" where
  "py_index xs i =
     (let n = int (length xs)
      in if 0 \<le> i \<and> i < n then Some (nat i)
         else if - n \<le> i \<and> i < 0 then Some (nat (n + i))
         else None)"

text \<open>The start of the slice \<open>xs[i:]\<close>: clamped, never an error.\<close>

definition slice_from :: "'a list \<Rightarrow> int \<Rightarrow> nat" where
  "slice_from xs i =
     (let n = int (length xs)
      in if i < 0 then nat (max 0 (n + i)) else nat (min i n))"

subsection \<open>The game state\<close>

text \<open>
  The field \<open>selected\<close> of the class is set to \<open>None\<close> by the constructor and is never
  read or written by the engine; it is left out of the record.
\<close>

record SolitaireGame =
  stock :: "Card list"
  waste :: "Card list"
  foundations :: "Card list list"
  tableau :: "Card list list"
  moves :: int

text \<open>The deck before \<open>random.shuffle\<close>: every suit with every rank, all face-down.\<close>

definition new_deck :: "Card list" where
  "new_deck = concat (map (\<lambda>s. map (\<lambda>r. \<lparr>suit = s, rank = r, face_up = False\<rparr>) RANKS)
                          [SPADE, HEART, DIAMOND, CLUB])"

text \<open>
  The inner loop of the deal, \<open>for j in range(i+1)\<close>, with the number of cards still to
  deal as the recursion argument: the last card dealt (\<open>j == i\<close>) is turned face-up.
  \<open>deck.pop()\<close> takes the last element and raises on an empty deck.
\<close>

fun deal_column :: "nat \<Rightarrow> Card list \<Rightarrow> Card list \<Rightarrow> py_error + (Card list \<times> Card list)" where
  "deal_column 0 deck pile = Inr (deck, pile)"
| "deal_column (Suc k) deck pile =
     (if deck = [] then Inl IndexError
      else let c = last deck;
               c' = (if k = 0 then c\<lparr>face_up := True\<rparr> else c)
           in deal_column k (butlast deck) (pile @ [c']))"

text \<open>The outer loop \<open>for i in range(7)\<close>, over the columns still to fill.\<close>

fun deal_tableau :: "nat list \<Rightarrow> Card list \<Rightarrow> Card list list
    \<Rightarrow> py_error + (Card list \<times> Card list list)" where
  "deal_tableau [] deck tab = Inr (deck, tab)"
| "deal_tableau (i # is) deck tab =
     (case deal_column (Suc i) deck (tab ! i) of
        Inl e \<Rightarrow> Inl e
      | Inr (deck', pile) \<Rightarrow> deal_tableau is deck' (tab[i := pile]))"

text \<open>
  \<open>__init__\<close> followed by \<open>initialize_deck\<close>; the argument is the deck as
  \<open>random.shuffle\<close> left it.
\<close>

definition initialize_deck :: "Card list \<Rightarrow> py_error + SolitaireGame" where
  "initialize_deck deck =
     (case deal_tableau [0..<7] deck (replicate 7 []) of
        Inl e \<Rightarrow> Inl e
      | Inr (deck', tab) \<Rightarrow>
          Inr \<lparr>stock = deck', waste = [], foundations = replicate 4 [], tableau = tab,
               moves = 0\<rparr>)"

subsection \<open>Drawing and recycling\<close>

text \<open>The loop \<open>while self.waste\<close> of \<open>draw_from_stock\<close>.\<close>

function recycle :: "SolitaireGame \<Rightarrow> SolitaireGame" where
  "recycle s =
     (if waste s \<noteq> []
      then recycle (s\<lparr>waste := butlast (waste s),
                      stock := stock s @ [(last (waste s))\<lparr>face_up := False\<rparr>]\<rparr>)
      else s)"
  by pat_completeness auto
termination
  by (relation "measure (\<lambda>s. length (waste s))") auto

declare recycle.simps [simp del]

definition draw_from_stock :: "SolitaireGame \<Rightarrow> SolitaireGame" where
  "draw_from_stock s =
     (if stock s = [] then recycle s
      else let c = (last (stock s))\<lparr>face_up := True\<rparr>
           in s\<lparr>stock := butlast (stock s), waste := waste s @ [c],
                moves := moves s + 1\<rparr>)"

subsection \<open>Placement rules\<close>

definition can_place_on_tableau :: "Card \<Rightarrow> Card list \<Rightarrow> bool" where
  "can_place_on_tableau c pile =
     (if pile = [] then rank c = KING
      else let top = last pile
           in RANK_VALUES (rank c) = RANK_VALUES (rank top) - 1 \<and> color c \<noteq> color top)"

definition can_move_to_foundation :: "SolitaireGame \<Rightarrow> Card \<Rightarrow> int \<Rightarrow> py_error + bool" where
  "can_move_to_foundation s c foundation_idx =
     (case py_index (foundations s) foundation_idx of
        None \<Rightarrow> Inl IndexError
      | Some f \<Rightarrow>
          let foundation = foundations s ! f
          in if foundation = [] then Inr (rank c = ACE)
             else let top = last foundation
                  in Inr (suit c = suit top \<and>
                          RANK_VALUES (rank c) = RANK_VALUES (rank top) + 1))"

subsection \<open>Moves\<close>

text \<open>\<open>if pile and not pile[-1].face_up: pile[-1].face_up = True\<close>\<close>

definition flip_top :: "Card list \<Rightarrow> Card list" where
  "flip_top pile =
     (if pile \<noteq> [] \<and> \<not> face_up (last pile)
      then butlast pile @ [(last pile)\<lparr>face_up := True\<rparr>]
      else pile)"

text \<open>The argument \<open>from_pile\<close>: the string \<open>'waste'\<close> or an integer.\<close>

datatype source = FromWaste | FromTableau int

text \<open>
  Every operation returns what the call did (\<open>Inr b\<close>: it returned \<open>b\<close>; \<open>Inl e\<close>: it raised
  \<open>e\<close>) together with the state it left behind.

  In the tableau branch of \<open>move_to_tableau\<close> the local \<open>pile\<close> is the source list itself,
  so \<open>del pile[card_idx:]\<close> acts on the list as \<open>extend\<close> left it: when source and target
  are the same list the deletion sees the extended pile. The model reads the source pile
  again after the update of the target. On the waste path \<open>card_idx\<close> is not read.
\<close>

definition move_to_tableau ::
    "SolitaireGame \<Rightarrow> source \<Rightarrow> int \<Rightarrow> int \<Rightarrow> (py_error + bool) \<times> SolitaireGame" where
  "move_to_tableau s from_pile to_pile_idx card_idx =
     (case from_pile of
        FromWaste \<Rightarrow>
          if waste s = [] then (Inr False, s)
          else
            (case py_index (tableau s) to_pile_idx of
               None \<Rightarrow> (Inl IndexError, s)
             | Some t \<Rightarrow>
                 if can_place_on_tableau (last (waste s)) (tableau s ! t)
                 then (Inr True,
                       s\<lparr>tableau := (tableau s)[t := tableau s ! t @ [last (waste s)]],
                         waste := flip_top (butlast (waste s)),
                         moves := moves s + 1\<rparr>)
                 else (Inr False, s))
      | FromTableau i \<Rightarrow>
          if 0 \<le> i \<and> i < 7 then
            (case py_index (tableau s) i of
               None \<Rightarrow> (Inl IndexError, s)
             | Some f \<Rightarrow>
                 let pile = tableau s ! f
                 in if card_idx < int (length pile) then
                      (case py_index pile card_idx of
                         None \<Rightarrow> (Inl IndexError, s)
                       | Some k \<Rightarrow>
                           if face_up (pile ! k) then
                             (case drop (slice_from pile card_idx) pile of
                                [] \<Rightarrow> (Inl IndexError, s)
                              | first # rest \<Rightarrow>
                                  (case py_index (tableau s) to_pile_idx of
                                     None \<Rightarrow> (Inl IndexError, s)
                                   | Some t \<Rightarrow>
                                       if can_place_on_tableau first (tableau s ! t) then
                                         let tab1 = (tableau s)[t := tableau s ! t @ first # rest];
                                             pile1 = tab1 ! f;
                                             pile2 = take (slice_from pile1 card_idx) pile1
                                         in (Inr True,
                                             s\<lparr>tableau := tab1[f := flip_top pile2],
                                               moves := moves s + 1\<rparr>)
                                       else (Inr False, s)))
                           else (Inr False, s))
                    else (Inr False, s))
          else (Inr False, s))"

text \<open>
  Lines 130 to 137 of \<open>move_to_foundation\<close>, run once a card has been popped: append it,
  count the move, and turn the new top of the source column face-up.
\<close>

definition place_on_foundation ::
    "SolitaireGame \<Rightarrow> Card \<Rightarrow> source \<Rightarrow> int \<Rightarrow> (py_error + bool) \<times> SolitaireGame" where
  "place_on_foundation s c from_pile foundation_idx =
     (case py_index (foundations s) foundation_idx of
        None \<Rightarrow> (Inl IndexError, s)
      | Some f \<Rightarrow>
          let s1 = s\<lparr>foundations := (foundations s)[f := foundations s ! f @ [c]],
                    moves := moves s + 1\<rparr>
          in (case from_pile of
                FromWaste \<Rightarrow> (Inr True, s1)
              | FromTableau i \<Rightarrow>
                  if 0 \<le> i \<and> i < 7 then
                    (case py_index (tableau s1) i of
                       None \<Rightarrow> (Inl IndexError, s1)
                     | Some j \<Rightarrow>
                         (Inr True, s1\<lparr>tableau := (tableau s1)[j := flip_top (tableau s1 ! j)]\<rparr>))
                  else (Inr True, s1)))"

definition move_to_foundation ::
    "SolitaireGame \<Rightarrow> source \<Rightarrow> int \<Rightarrow> (py_error + bool) \<times> SolitaireGame" where
  "move_to_foundation s from_pile foundation_idx =
     (case from_pile of
        FromWaste \<Rightarrow>
          if waste s \<noteq> [] then
            (case can_move_to_foundation s (last (waste s)) foundation_idx of
               Inl e \<Rightarrow> (Inl e, s)
             | Inr ok \<Rightarrow>
                 if ok then place_on_foundation (s\<lparr>waste := butlast (waste s)\<rparr>)
                              (last (waste s)) from_pile foundation_idx
                 else (Inr False, s))
          else (Inr False, s)
      | FromTableau i \<Rightarrow>
          if 0 \<le> i \<and> i < 7 then
            (case py_index (tableau s) i of
               None \<Rightarrow> (Inl IndexError, s)
             | Some j \<Rightarrow>
                 let pile = tableau s ! j
                 in if pile \<noteq> [] \<and> face_up (last pile) then
                      (case can_move_to_foundation s (last pile) foundation_idx of
                         Inl e \<Rightarrow> (Inl e, s)
                       | Inr ok \<Rightarrow>
                           if ok then place_on_foundation
                                        (s\<lparr>tableau := (tableau s)[j := butlast pile]\<rparr>)
                                        (last pile) from_pile foundation_idx
                           else (Inr False, s))
                    else (Inr False, s))
          else (Inr False, s))"


text \<open>
  The manual flip of the presentation layer (\<open>select_tableau_card\<close>, its first two
  branches): a click on a column whose top card is face-down turns that card face-up and
  does nothing else. The rest of that method only calls \<open>move_to_tableau\<close>.
\<close>

definition select_tableau_card_flip :: "SolitaireGame \<Rightarrow> int \<Rightarrow> py_error + SolitaireGame" where
  "select_tableau_card_flip s tableau_idx =
     (case py_index (tableau s) tableau_idx of
        None \<Rightarrow> Inl IndexError
      | Some j \<Rightarrow> Inr (s\<lparr>tableau := (tableau s)[j := flip_top (tableau s ! j)]\<rparr>))"

text \<open>
  One step of a game: any call the presentation layer can make on the engine, with any
  arguments. The state after a call that raised is the state the call left behind.
\<close>

datatype operation =
    Draw
  | MoveToTableau source int int
  | MoveToFoundation source int
  | Flip int

fun apply_op :: "SolitaireGame \<Rightarrow> operation \<Rightarrow> SolitaireGame" where
  "apply_op s Draw = draw_from_stock s"
| "apply_op s (MoveToTableau from_pile to_pile_idx card_idx) =
     snd (move_to_tableau s from_pile to_pile_idx card_idx)"
| "apply_op s (MoveToFoundation from_pile foundation_idx) =
     snd (move_to_foundation s from_pile foundation_idx)"
| "apply_op s (Flip tableau_idx) =
     (case select_tableau_card_flip s tableau_idx of Inl e \<Rightarrow> s | Inr s' \<Rightarrow> s')"

text \<open>
  The reachable states: a fresh deal of any shuffle of the 52 cards (the constructor,
  also run by \<open>new_game\<close>), and whatever the operations make of a reachable state.
\<close>

inductive reachable :: "SolitaireGame \<Rightarrow> bool" where
  deal: "mset deck = mset new_deck \<Longrightarrow> initialize_deck deck = Inr s \<Longrightarrow> reachable s"
| step: "reachable s \<Longrightarrow> reachable (apply_op s opn)"

subsection \<open>Invariants of the state\<close>

definition all_cards :: "SolitaireGame \<Rightarrow> Card list" where
  "all_cards s = stock s @ waste s @ concat (foundations s) @ concat (tableau s)"

text \<open>The identities held by a list of cards, and those of its face-up cards.\<close>

definition ids :: "Card list \<Rightarrow> (Suit \<times> Rank) multiset" where
  "ids xs = mset (map ident xs)"

definition ups :: "Card list \<Rightarrow> (Suit \<times> Rank) set" where
  "ups xs = set (map ident (filter face_up xs))"

text \<open>A run: each card lower in rank than the one it lies on, and of the other colour.\<close>

fun run_ok :: "Card list \<Rightarrow> bool" where
  "run_ok [] = True"
| "run_ok [c] = True"
| "run_ok (a # b # cs) =
     (RANK_VALUES (rank b) < RANK_VALUES (rank a) \<and> color a \<noteq> color b \<and> run_ok (b # cs))"

definition face_up_suffix :: "Card list \<Rightarrow> Card list" where
  "face_up_suffix pile = rev (takeWhile face_up (rev pile))"

definition below_suffix :: "Card list \<Rightarrow> Card list" where
  "below_suffix pile = rev (dropWhile face_up (rev pile))"

text \<open>
  The tableau invariant: the face-up suffix of the pile is strictly descending in rank
  and alternating in colour, and every card below it is face-down.
\<close>

definition tableau_inv :: "Card list \<Rightarrow> bool" where
  "tableau_inv pile =
     (run_ok (face_up_suffix pile) \<and> list_all (\<lambda>c. \<not> face_up c) (below_suffix pile))"

text \<open>The foundation invariant: ranks 1 to k of one suit, in order.\<close>

definition foundation_inv :: "Card list \<Rightarrow> bool" where
  "foundation_inv f =
     (map (\<lambda>c. RANK_VALUES (rank c)) f = map (\<lambda>i. int i + 1) [0..<length f] \<and>
      list_all (\<lambda>c. suit c = suit (hd f)) f)"

definition state_inv :: "SolitaireGame \<Rightarrow> bool" where
  "state_inv s =
     (length (tableau s) = 7 \<and> length (foundations s) = 4 \<and>
      ids (all_cards s) = ids new_deck \<and>
      list_all tableau_inv (tableau s) \<and>
      list_all face_up (waste s) \<and>
      list_all foundation_inv (foundations s))"

section \<open>The piles, the deck cycling and the move of text.py\<close>

datatype Suit_t = HEARTS | DIAMONDS | CLUBS | SPADES

text \<open>The second component of the enum value of a suit: its colour.\<close>

fun suit_color :: "Suit_t \<Rightarrow> string" where
  "suit_color HEARTS = ''red''"
| "suit_color DIAMONDS = ''red''"
| "suit_color CLUBS = ''black''"
| "suit_color SPADES = ''black''"

record Card_t =
  suit_t :: Suit_t
  rank_t :: Rank

definition get_color :: "Card_t \<Rightarrow> string" where
  "get_color c = suit_color (suit_t c)"

text \<open>The enum \<open>Rank\<close> carries the same values 1 to 13 as \<open>RANK_VALUES\<close>.\<close>

definition get_rank_value :: "Card_t \<Rightarrow> int" where
  "get_rank_value c = RANK_VALUES (rank_t c)"

record CardPile =
  pile_id :: int
  cards :: "Card_t list"
  is_foundation :: bool

definition is_empty :: "CardPile \<Rightarrow> bool" where
  "is_empty p = (length (cards p) = 0)"

definition get_top_card :: "CardPile \<Rightarrow> Card_t option" where
  "get_top_card p = (if cards p \<noteq> [] then Some (last (cards p)) else None)"

text \<open>
  \<open>can_accept_card\<close> reads \<open>top_card\<close> only after \<open>is_empty\<close> has answered no, so the
  \<open>None\<close> of \<open>get_top_card\<close> never reaches the comparison; the model answers \<open>False\<close> there.
\<close>

definition can_accept_card :: "CardPile \<Rightarrow> Card_t \<Rightarrow> bool" where
  "can_accept_card p c =
     (if is_foundation p then
        (if is_empty p then rank_t c = ACE
         else (case get_top_card p of
                 None \<Rightarrow> False
               | Some top_card \<Rightarrow>
                   suit_t c = suit_t top_card \<and>
                   get_rank_value c = get_rank_value top_card + 1))
      else
        (if is_empty p then rank_t c = KING
         else (case get_top_card p of
                 None \<Rightarrow> False
               | Some top_card \<Rightarrow>
                   get_color c \<noteq> get_color top_card \<and>
                   get_rank_value c = get_rank_value top_card - 1)))"

text \<open>
  \<open>add_card\<close> and \<open>remove_card\<close> change the list of the pile object in place; here they
  return the pile as changed. \<open>remove_card\<close> leaves an empty pile empty.
\<close>

definition add_card :: "CardPile \<Rightarrow> Card_t \<Rightarrow> CardPile" where
  "add_card p c = p\<lparr>cards := cards p @ [c]\<rparr>"

definition remove_card :: "CardPile \<Rightarrow> CardPile" where
  "remove_card p = p\<lparr>cards := butlast (cards p)\<rparr>"

text \<open>
  A reference to one of the pile objects of the game: its place in \<open>foundation_piles\<close> or
  in \<open>tableau_piles\<close>.
\<close>

datatype pile_ref = FoundationPile nat | TableauPile nat

datatype history_entry = Deck_entry | Reshuffle_entry | Move_entry pile_ref pile_ref Card_t

text \<open>
  The state of the game object of \<open>text.py\<close>, without its widgets. A card of \<open>text.py\<close> has
  no face flag: every card of a column is drawn face-up.
\<close>

record SolitaireGame_t =
  deck_cards :: "Card_t list"
  waste_pile :: "Card_t list"
  foundation_piles :: "CardPile list"
  tableau_piles :: "CardPile list"
  selected_card :: "Card_t option"
  selected_pile :: "pile_ref option"
  moves_t :: int
  move_history :: "history_entry list"

definition get_pile :: "SolitaireGame_t \<Rightarrow> pile_ref \<Rightarrow> CardPile" where
  "get_pile s r =
     (case r of FoundationPile i \<Rightarrow> foundation_piles s ! i | TableauPile i \<Rightarrow> tableau_piles s ! i)"

definition put_pile :: "SolitaireGame_t \<Rightarrow> pile_ref \<Rightarrow> CardPile \<Rightarrow> SolitaireGame_t" where
  "put_pile s r p =
     (case r of
        FoundationPile i \<Rightarrow> s\<lparr>foundation_piles := (foundation_piles s)[i := p]\<rparr>
      | TableauPile i \<Rightarrow> s\<lparr>tableau_piles := (tableau_piles s)[i := p]\<rparr>)"

text \<open>
  \<open>draw_from_deck\<close>. The argument \<open>shuffle\<close> stands for \<open>random.shuffle\<close>: some
  rearrangement of the list it is given.
\<close>

definition draw_from_deck ::
    "(Card_t list \<Rightarrow> Card_t list) \<Rightarrow> SolitaireGame_t \<Rightarrow> SolitaireGame_t" where
  "draw_from_deck shuffle s =
     (if deck_cards s \<noteq> []
      then s\<lparr>deck_cards := butlast (deck_cards s),
             waste_pile := waste_pile s @ [last (deck_cards s)],
             moves_t := moves_t s + 1,
             move_history := move_history s @ [Deck_entry]\<rparr>
      else s\<lparr>deck_cards := shuffle (deck_cards s @ waste_pile s),
             waste_pile := [],
             moves_t := moves_t s + 1,
             move_history := move_history s @ [Reshuffle_entry]\<rparr>)"

text \<open>The test of \<open>check_win\<close>: whether the win branch is taken.\<close>

definition check_win :: "SolitaireGame_t \<Rightarrow> bool" where
  "check_win s = list_all (\<lambda>pile. length (cards pile) = 13) (foundation_piles s)"

text \<open>
  \<open>move_card\<close>. The piles are named by reference, so that a move of a pile onto itself
  acts on one object, as in the source. When the test of \<open>check_win\<close> holds after a move
  the program announces the win and runs \<open>restart_game\<close>, for which the argument
  \<open>restart\<close> stands. The selection is cleared on every path but the early return.
\<close>

definition move_card ::
    "(SolitaireGame_t \<Rightarrow> SolitaireGame_t) \<Rightarrow> SolitaireGame_t \<Rightarrow> pile_ref \<Rightarrow> pile_ref
     \<Rightarrow> SolitaireGame_t" where
  "move_card restart s from_pile to_pile =
     (if selected_card s = None \<or> is_empty (get_pile s from_pile) then s
      else
        (case get_top_card (get_pile s from_pile) of
           None \<Rightarrow> s
         | Some c \<Rightarrow>
             let s' =
               (if can_accept_card (get_pile s to_pile) c then
                  let s1 = put_pile s from_pile (remove_card (get_pile s from_pile));
                      s2 = put_pile s1 to_pile (add_card (get_pile s1 to_pile) c);
                      s3 = s2\<lparr>moves_t := moves_t s2 + 1,
                              move_history := move_history s2 @ [Move_entry from_pile to_pile c]\<rparr>
                  in if check_win s3 then restart s3 else s3
                else s)
             in s'\<lparr>selected_card := None, selected_pile := None\<rparr>))"

text \<open>
  The deck of \<open>text.py\<close> before \<open>random.shuffle\<close>: \<open>create_deck\<close> builds every suit with
  every rank.
\<close>

definition new_deck_t :: "Card_t list" where
  "new_deck_t = concat (map (\<lambda>s. map (\<lambda>r. \<lparr>suit_t = s, rank_t = r\<rparr>) RANKS)
                            [HEARTS, DIAMONDS, CLUBS, SPADES])"

text \<open>
  The inner loop of the deal in \<open>initialize_game\<close>, \<open>for j in range(i + 1)\<close>, with the number
  of draws still to make as the recursion argument. \<open>Deck.draw\<close> answers \<open>None\<close> on an empty
  deck, and the loop then adds nothing.
\<close>

fun deal_pile_t :: "nat \<Rightarrow> Card_t list \<Rightarrow> CardPile \<Rightarrow> Card_t list \<times> CardPile" where
  "deal_pile_t 0 deck p = (deck, p)"
| "deal_pile_t (Suc k) deck p =
     (if deck \<noteq> [] then deal_pile_t k (butlast deck) (add_card p (last deck))
      else deal_pile_t k deck p)"

text \<open>The outer loop \<open>for i, pile in enumerate(self.tableau_piles)\<close>, from index \<open>i\<close> on.\<close>

fun deal_piles_t :: "nat \<Rightarrow> Card_t list \<Rightarrow> CardPile list \<Rightarrow> Card_t list \<times> CardPile list" where
  "deal_piles_t i deck [] = (deck, [])"
| "deal_piles_t i deck (p # ps) =
     (case deal_pile_t (Suc i) deck p of
        (deck', p') \<Rightarrow>
          (case deal_piles_t (Suc i) deck' ps of
             (deck'', ps') \<Rightarrow> (deck'', p' # ps')))"

text \<open>
  \<open>initialize_game\<close>: four foundation piles and seven tableau piles are appended to the
  lists the game object already holds, then every pile of \<open>tableau_piles\<close> is dealt to.
  The call of \<open>draw_game\<close> that ends it draws the board from these fields and assigns
  none of them; it is left out.
\<close>

definition initialize_game :: "SolitaireGame_t \<Rightarrow> SolitaireGame_t" where
  "initialize_game s =
     (let fps = foundation_piles s @
                  map (\<lambda>i. \<lparr>pile_id = i, cards = [], is_foundation = True\<rparr>) [0, 1, 2, 3];
          tps = tableau_piles s @
                  map (\<lambda>i. \<lparr>pile_id = i, cards = [], is_foundation = False\<rparr>)
                    [0, 1, 2, 3, 4, 5, 6]
      in (case deal_piles_t 0 (deck_cards s) tps of
            (deck', tps') \<Rightarrow>
              s\<lparr>deck_cards := deck', foundation_piles := fps, tableau_piles := tps',
                moves_t := 0, move_history := []\<rparr>))"

text \<open>
  The constructor of the game object of \<open>text.py\<close>; the argument is the deck as
  \<open>random.shuffle\<close> left it.
\<close>

definition new_game_t :: "Card_t list \<Rightarrow> SolitaireGame_t" where
  "new_game_t shuffled =
     initialize_game
       \<lparr>deck_cards = shuffled, waste_pile = [], foundation_piles = [], tableau_piles = [],
        selected_card = None, selected_pile = None, moves_t = 0, move_history = []\<rparr>"

text \<open>
  \<open>restart_game\<close>: a new shuffled deck, the waste and the cards of every pile cleared, then
  \<open>initialize_game\<close> again. The pile lists themselves are not cleared.
\<close>

definition restart_game :: "Card_t list \<Rightarrow> SolitaireGame_t \<Rightarrow> SolitaireGame_t" where
  "restart_game shuffled s =
     initialize_game
       (s\<lparr>deck_cards := shuffled, waste_pile := [],
          tableau_piles := map (\<lambda>p. p\<lparr>cards := []\<rparr>) (tableau_piles s),
          foundation_piles := map (\<lambda>p. p\<lparr>cards := []\<rparr>) (foundation_piles s)\<rparr>)"

text \<open>A reference to a pile that the game object holds.\<close>

definition valid_ref :: "SolitaireGame_t \<Rightarrow> pile_ref \<Rightarrow> bool" where
  "valid_ref g r =
     (case r of FoundationPile i \<Rightarrow> i < length (foundation_piles g)
              | TableauPile i \<Rightarrow> i < length (tableau_piles g))"

text \<open>The number of cards in the deck, the waste and all the piles of \<open>text.py\<close>.\<close>

definition card_count_t :: "SolitaireGame_t \<Rightarrow> nat" where
  "card_count_t g =
     length (deck_cards g) + length (waste_pile g) +
     sum_list (map (\<lambda>p. length (cards p)) (foundation_piles g)) +
     sum_list (map (\<lambda>p. length (cards p)) (tableau_piles g))"

text \<open>A foundation pile of \<open>text.py\<close> holds the rank values 1 to k, in order.\<close>

definition foundation_inv_t :: "CardPile \<Rightarrow> bool" where
  "foundation_inv_t p =
     (is_foundation p \<and>
      map get_rank_value (cards p) = map (\<lambda>i. int i + 1) [0..<length (cards p)])"

text \<open>
  The invariant of the game of \<open>text.py\<close>: seven columns for every four foundation piles,
  52 cards in all, and every foundation pile in order.
\<close>

definition game_inv_t :: "SolitaireGame_t \<Rightarrow> bool" where
  "game_inv_t g =
     (0 < length (foundation_piles g) \<and>
      7 * length (foundation_piles g) = 4 * length (tableau_piles g) \<and>
      card_count_t g = 52 \<and>
      list_all foundation_inv_t (foundation_piles g))"

text \<open>
  The states of a session of \<open>text.py\<close>: the first game on any shuffle of the deck; a draw,
  with any rearrangement for \<open>random.shuffle\<close>; any selection (\<open>on_card_click\<close> and
  \<open>select_pile\<close> set it, \<open>on_canvas_release\<close> clears it); \<open>move_card\<close> between any two
  piles of the game (\<open>on_canvas_release\<close> calls it on the selected pile and the pile under
  the pointer), with \<open>restart_game\<close> on any shuffle as its restart; and \<open>restart_game\<close>
  itself, which the restart button calls.
\<close>

inductive reachable_t :: "SolitaireGame_t \<Rightarrow> bool" where
  start: "mset D = mset new_deck_t \<Longrightarrow> reachable_t (new_game_t D)"
| draw: "reachable_t g \<Longrightarrow> \<forall>xs. mset (shuffle xs) = mset xs \<Longrightarrow>
         reachable_t (draw_from_deck shuffle g)"
| select: "reachable_t g \<Longrightarrow> reachable_t (g\<lparr>selected_card := c, selected_pile := r\<rparr>)"
| move: "reachable_t g \<Longrightarrow> valid_ref g from_pile \<Longrightarrow> valid_ref g to_pile \<Longrightarrow>
         mset D = mset new_deck_t \<Longrightarrow>
         reachable_t (move_card (restart_game D) g from_pile to_pile)"
| restart: "reachable_t g \<Longrightarrow> mset D = mset new_deck_t \<Longrightarrow> reachable_t (restart_game D g)"

text \<open>
  A sequence of moves of a top card from one pile to another: a click on the top card of
  the source pile selects the card and the pile, and the release over the target pile
  calls \<open>move_card\<close> on the two. Should the test of \<open>check_win\<close> hold after a move, the
  restart deals the unshuffled deck.
\<close>

fun play_t :: "(pile_ref \<times> pile_ref) list \<Rightarrow> SolitaireGame_t \<Rightarrow> SolitaireGame_t" where
  "play_t [] g = g"
| "play_t ((f, t) # ms) g =
     play_t ms (move_card (restart_game new_deck_t)
                  (g\<lparr>selected_card := get_top_card (get_pile g f), selected_pile := Some f\<rparr>) f t)"

section \<open>Example states\<close>

text \<open>An empty stock and five face-up cards in the waste, drawn in five moves.\<close>

definition five_in_waste :: SolitaireGame where
  "five_in_waste =
     \<lparr>stock = [],
      waste = [\<lparr>suit = HEART, rank = ACE, face_up = True\<rparr>,
               \<lparr>suit = SPADE, rank = SEVEN, face_up = True\<rparr>,
               \<lparr>suit = CLUB, rank = KING, face_up = True\<rparr>,
               \<lparr>suit = DIAMOND, rank = TWO, face_up = True\<rparr>,
               \<lparr>suit = HEART, rank = QUEEN, face_up = True\<rparr>],
      foundations = [[], [], [], []],
      tableau = [[], [], [], [], [], [], []],
      moves = 5\<rparr>"

text \<open>The same situation in \<open>text.py\<close>: an empty deck and two cards in the waste.\<close>

definition two_in_waste_t :: SolitaireGame_t where
  "two_in_waste_t =
     \<lparr>deck_cards = [],
      waste_pile = [\<lparr>suit_t = HEARTS, rank_t = ACE\<rparr>, \<lparr>suit_t = SPADES, rank_t = SEVEN\<rparr>],
      foundation_piles = [\<lparr>pile_id = 0, cards = [], is_foundation = True\<rparr>,
                          \<lparr>pile_id = 1, cards = [], is_foundation = True\<rparr>,
                          \<lparr>pile_id = 2, cards = [], is_foundation = True\<rparr>,
                          \<lparr>pile_id = 3, cards = [], is_foundation = True\<rparr>],
      tableau_piles = [\<lparr>pile_id = 0, cards = [], is_foundation = False\<rparr>,
                       \<lparr>pile_id = 1, cards = [], is_foundation = False\<rparr>,
                       \<lparr>pile_id = 2, cards = [], is_foundation = False\<rparr>,
                       \<lparr>pile_id = 3, cards = [], is_foundation = False\<rparr>,
                       \<lparr>pile_id = 4, cards = [], is_foundation = False\<rparr>,
                       \<lparr>pile_id = 5, cards = [], is_foundation = False\<rparr>,
                       \<lparr>pile_id = 6, cards = [], is_foundation = False\<rparr>],
      selected_card = None,
      selected_pile = None,
      moves_t = 2,
      move_history = [Deck_entry, Deck_entry]\<rparr>"

text \<open>
  In \<open>text.py\<close>: a column holding the nine of spades, the eight of hearts and the seven
  of clubs, a column holding the ten of diamonds, and the nine of spades selected.
\<close>

definition run_of_three_t :: SolitaireGame_t where
  "run_of_three_t =
     \<lparr>deck_cards = [], waste_pile = [],
      foundation_piles = [\<lparr>pile_id = 0, cards = [], is_foundation = True\<rparr>,
                          \<lparr>pile_id = 1, cards = [], is_foundation = True\<rparr>,
                          \<lparr>pile_id = 2, cards = [], is_foundation = True\<rparr>,
                          \<lparr>pile_id = 3, cards = [], is_foundation = True\<rparr>],
      tableau_piles = [\<lparr>pile_id = 0,
                         cards = [\<lparr>suit_t = SPADES, rank_t = NINE\<rparr>,
                                  \<lparr>suit_t = HEARTS, rank_t = EIGHT\<rparr>,
                                  \<lparr>suit_t = CLUBS, rank_t = SEVEN\<rparr>],
                         is_foundation = False\<rparr>,
                       \<lparr>pile_id = 1, cards = [\<lparr>suit_t = DIAMONDS, rank_t = TEN\<rparr>],
                         is_foundation = False\<rparr>,
                       \<lparr>pile_id = 2, cards = [], is_foundation = False\<rparr>,
                       \<lparr>pile_id = 3, cards = [], is_foundation = False\<rparr>,
                       \<lparr>pile_id = 4, cards = [], is_foundation = False\<rparr>,
                       \<lparr>pile_id = 5, cards = [], is_foundation = False\<rparr>,
                       \<lparr>pile_id = 6, cards = [], is_foundation = False\<rparr>],
      selected_card = Some \<lparr>suit_t = SPADES, rank_t = NINE\<rparr>,
      selected_pile = Some (TableauPile 0),
      moves_t = 0,
      move_history = []\<rparr>"

text \<open>
  The waste holds the two of hearts under the ace of hearts; every pile is empty, the
  queen of spades apart, which lies alone in the stock.
\<close>

definition hearts_in_waste :: SolitaireGame where
  "hearts_in_waste =
     \<lparr>stock = [\<lparr>suit = SPADE, rank = QUEEN, face_up = False\<rparr>],
      waste = [\<lparr>suit = HEART, rank = TWO, face_up = True\<rparr>,
               \<lparr>suit = HEART, rank = ACE, face_up = True\<rparr>],
      foundations = [[], [], [], []],
      tableau = [[], [], [], [], [], [], []],
      moves = 2\<rparr>"

text \<open>
  A column with one face-down card under a face-up run of three, and a column whose top
  card takes that run.
\<close>

definition run_of_three :: SolitaireGame where
  "run_of_three =
     \<lparr>stock = [], waste = [], foundations = [[], [], [], []],
      tableau = [[\<lparr>suit = CLUB, rank = THREE, face_up = False\<rparr>,
                  \<lparr>suit = SPADE, rank = NINE, face_up = True\<rparr>,
                  \<lparr>suit = HEART, rank = EIGHT, face_up = True\<rparr>,
                  \<lparr>suit = CLUB, rank = SEVEN, face_up = True\<rparr>],
                 [\<lparr>suit = DIAMOND, rank = TEN, face_up = True\<rparr>],
                 [], [], [], [], []],
      moves = 0\<rparr>"

text \<open>The deal of the unshuffled deck, and the state after drawing its whole stock.\<close>

definition fresh_deal :: SolitaireGame where
  "fresh_deal = projr (initialize_deck new_deck)"

definition drawn_out :: SolitaireGame where
  "drawn_out = (draw_from_stock ^^ 24) fresh_deal"


text \<open>
  In \<open>text.py\<close>: the first game on the unshuffled deck and the game after one restart,
  on the unshuffled deck again. That game has fourteen columns, and the deal leaves the
  cards in the first ten of them in the order of the deck, the ace of hearts on top of the
  tenth. So every card can be moved in turn from the top of its column to a foundation
  pile: the hearts to the fifth foundation pile, the diamonds to the sixth, the clubs to
  the seventh and the spades to the eighth. The last state is the position after these
  52 moves.
\<close>

definition first_game_t :: SolitaireGame_t where
  "first_game_t = new_game_t new_deck_t"

definition second_game_t :: SolitaireGame_t where
  "second_game_t = restart_game new_deck_t first_game_t"

definition home_moves :: "(pile_ref \<times> pile_ref) list" where
  "home_moves =
     zip (map TableauPile
            (replicate 7 9 @ replicate 9 8 @ replicate 8 7 @ replicate 7 6 @ replicate 6 5 @
             replicate 5 4 @ replicate 4 3 @ replicate 3 2 @ replicate 2 1 @ [0]))
         (map FoundationPile
            (replicate 13 4 @ replicate 13 5 @ replicate 13 6 @ replicate 13 7))"

definition home_after_restart :: SolitaireGame_t where
  "home_after_restart = play_t home_moves second_game_t"

section \<open>Properties\<close>

subsection \<open>Indices and rank values\<close>


lemma RANK_VALUES_enumerate:
  "map RANK_VALUES RANKS = map (\<lambda>i. int i + 1) [0..<length RANKS]"
  by (simp add: RANKS_def upt_rec)

lemma py_index_lt: "py_index xs i = Some k \<Longrightarrow> k < length xs"
  by (auto simp: py_index_def Let_def split: if_splits)

lemma py_index_length_cong: "length xs = length ys \<Longrightarrow> py_index xs i = py_index ys i"
  by (simp add: py_index_def)

lemma slice_from_py_index: "py_index xs i = Some k \<Longrightarrow> slice_from xs i = k"
  by (auto simp: py_index_def slice_from_def Let_def split: if_splits)

subsection \<open>Placement rules\<close>

text \<open>
  Claim C5. A tableau pile accepts a card exactly when the pile is empty and the card is
  a King, or the pile is not empty and the card is one rank below the top card and of the
  other colour; this holds for \<open>can_place_on_tableau\<close> and for the tableau branch of
  \<open>can_accept_card\<close>. A Queen offered from the waste to an empty column is refused and
  the column stays empty.
\<close>

theorem tableau_placement_rule:
  "(can_place_on_tableau c p \<longleftrightarrow>
      (p = [] \<and> rank c = KING) \<or>
      (p \<noteq> [] \<and> RANK_VALUES (rank c) = RANK_VALUES (rank (last p)) - 1 \<and>
       color c \<noteq> color (last p))) \<and>
   (can_accept_card \<lparr>pile_id = n, cards = q, is_foundation = False\<rparr> d \<longleftrightarrow>
      (q = [] \<and> rank_t d = KING) \<or>
      (q \<noteq> [] \<and> get_rank_value d = get_rank_value (last q) - 1 \<and>
       get_color d \<noteq> get_color (last q))) \<and>
   (rank c = QUEEN \<and> waste s \<noteq> [] \<and> last (waste s) = c \<and>
    py_index (tableau s) t = Some j \<and> tableau s ! j = [] \<longrightarrow>
      move_to_tableau s FromWaste t ci = (Inr False, s) \<and>
      tableau (snd (move_to_tableau s FromWaste t ci)) ! j = [])"
  by (auto simp: can_place_on_tableau_def can_accept_card_def is_empty_def get_top_card_def
      move_to_tableau_def Let_def)

theorem tableau_placement_rule_witness:
  "can_place_on_tableau \<lparr>suit = HEART, rank = QUEEN, face_up = True\<rparr>
     [\<lparr>suit = SPADE, rank = KING, face_up = True\<rparr>] \<and>
   \<not> can_place_on_tableau \<lparr>suit = HEART, rank = QUEEN, face_up = True\<rparr> [] \<and>
   can_place_on_tableau \<lparr>suit = HEART, rank = KING, face_up = True\<rparr> [] \<and>
   can_accept_card \<lparr>pile_id = 0, cards = [\<lparr>suit_t = SPADES, rank_t = KING\<rparr>],
     is_foundation = False\<rparr> \<lparr>suit_t = HEARTS, rank_t = QUEEN\<rparr> \<and>
   \<not> can_accept_card \<lparr>pile_id = 0, cards = [], is_foundation = False\<rparr>
     \<lparr>suit_t = HEARTS, rank_t = QUEEN\<rparr> \<and>
   move_to_tableau five_in_waste FromWaste 3 0 = (Inr False, five_in_waste)"
  using tableau_placement_rule [of "\<lparr>suit = HEART, rank = QUEEN, face_up = True\<rparr>"
      "[\<lparr>suit = SPADE, rank = KING, face_up = True\<rparr>]" 0
      "[\<lparr>suit_t = SPADES, rank_t = KING\<rparr>]" "\<lparr>suit_t = HEARTS, rank_t = QUEEN\<rparr>"
      five_in_waste 3 3 0]
    tableau_placement_rule [of "\<lparr>suit = HEART, rank = QUEEN, face_up = True\<rparr>" "[]" 0
      "[]" "\<lparr>suit_t = HEARTS, rank_t = QUEEN\<rparr>" five_in_waste 3 3 0]
    tableau_placement_rule [of "\<lparr>suit = HEART, rank = KING, face_up = True\<rparr>" "[]" 0
      "[]" "\<lparr>suit_t = HEARTS, rank_t = QUEEN\<rparr>" five_in_waste 3 3 0]
  by (simp add: five_in_waste_def py_index_def color_def get_color_def get_rank_value_def)

text \<open>
  Claim C6. A foundation accepts a card exactly when it is empty and the card is an Ace,
  or it is not empty and the card has the suit of the top card and the next rank; this
  holds for \<open>can_move_to_foundation\<close> and for the foundation branch of \<open>can_accept_card\<close>.
  The two of spades is refused on a foundation topped by the ace of hearts and on an
  empty one; the ace of hearts and then the two of hearts are taken from the waste,
  after which the foundation holds two cards.
\<close>

theorem foundation_placement_rule:
  "(py_index (foundations s) fi = Some f \<longrightarrow>
      can_move_to_foundation s c fi =
        Inr ((foundations s ! f = [] \<and> rank c = ACE) \<or>
             (foundations s ! f \<noteq> [] \<and> suit c = suit (last (foundations s ! f)) \<and>
              RANK_VALUES (rank c) = RANK_VALUES (rank (last (foundations s ! f))) + 1))) \<and>
   (can_accept_card \<lparr>pile_id = n, cards = q, is_foundation = True\<rparr> d \<longleftrightarrow>
      (q = [] \<and> rank_t d = ACE) \<or>
      (q \<noteq> [] \<and> suit_t d = suit_t (last q) \<and>
       get_rank_value d = get_rank_value (last q) + 1)) \<and>
   can_move_to_foundation (snd (move_to_foundation hearts_in_waste FromWaste 0))
     \<lparr>suit = SPADE, rank = TWO, face_up = True\<rparr> 0 = Inr False \<and>
   can_move_to_foundation hearts_in_waste \<lparr>suit = SPADE, rank = TWO, face_up = True\<rparr> 0
     = Inr False \<and>
   fst (move_to_foundation hearts_in_waste FromWaste 0) = Inr True \<and>
   fst (move_to_foundation (snd (move_to_foundation hearts_in_waste FromWaste 0))
          FromWaste 0) = Inr True \<and>
   length (foundations
     (snd (move_to_foundation (snd (move_to_foundation hearts_in_waste FromWaste 0))
            FromWaste 0)) ! 0) = 2"
proof -
  have general: "py_index (foundations s) fi = Some f \<longrightarrow>
      can_move_to_foundation s c fi =
        Inr ((foundations s ! f = [] \<and> rank c = ACE) \<or>
             (foundations s ! f \<noteq> [] \<and> suit c = suit (last (foundations s ! f)) \<and>
              RANK_VALUES (rank c) = RANK_VALUES (rank (last (foundations s ! f))) + 1))"
    by (auto simp: can_move_to_foundation_def Let_def)
  have text_rule: "can_accept_card \<lparr>pile_id = n, cards = q, is_foundation = True\<rparr> d \<longleftrightarrow>
      (q = [] \<and> rank_t d = ACE) \<or>
      (q \<noteq> [] \<and> suit_t d = suit_t (last q) \<and>
       get_rank_value d = get_rank_value (last q) + 1)"
    by (auto simp: can_accept_card_def is_empty_def get_top_card_def)
  have first: "move_to_foundation hearts_in_waste FromWaste 0 =
      (Inr True, hearts_in_waste
         \<lparr>waste := [\<lparr>suit = HEART, rank = TWO, face_up = True\<rparr>],
          foundations := [[\<lparr>suit = HEART, rank = ACE, face_up = True\<rparr>], [], [], []],
          moves := 3\<rparr>)"
    by (simp add: hearts_in_waste_def move_to_foundation_def can_move_to_foundation_def
        place_on_foundation_def py_index_def Let_def)
  have second: "move_to_foundation (hearts_in_waste
         \<lparr>waste := [\<lparr>suit = HEART, rank = TWO, face_up = True\<rparr>],
          foundations := [[\<lparr>suit = HEART, rank = ACE, face_up = True\<rparr>], [], [], []],
          moves := 3\<rparr>) FromWaste 0 =
      (Inr True, hearts_in_waste
         \<lparr>waste := [],
          foundations := [[\<lparr>suit = HEART, rank = ACE, face_up = True\<rparr>,
                           \<lparr>suit = HEART, rank = TWO, face_up = True\<rparr>], [], [], []],
          moves := 4\<rparr>)"
    by (simp add: hearts_in_waste_def move_to_foundation_def can_move_to_foundation_def
        place_on_foundation_def py_index_def Let_def)
  have refused: "can_move_to_foundation (hearts_in_waste
         \<lparr>waste := [\<lparr>suit = HEART, rank = TWO, face_up = True\<rparr>],
          foundations := [[\<lparr>suit = HEART, rank = ACE, face_up = True\<rparr>], [], [], []],
          moves := 3\<rparr>) \<lparr>suit = SPADE, rank = TWO, face_up = True\<rparr> 0 = Inr False"
    by (simp add: hearts_in_waste_def can_move_to_foundation_def py_index_def Let_def)
  have refused_empty: "can_move_to_foundation hearts_in_waste
      \<lparr>suit = SPADE, rank = TWO, face_up = True\<rparr> 0 = Inr False"
    by (simp add: hearts_in_waste_def can_move_to_foundation_def py_index_def Let_def)
  show ?thesis
    using general text_rule refused refused_empty
    by (simp only: first second snd_conv fst_conv) (simp add: hearts_in_waste_def)
qed

theorem foundation_placement_rule_witness:
  "py_index (foundations hearts_in_waste) 0 = Some 0 \<and>
   can_move_to_foundation hearts_in_waste \<lparr>suit = HEART, rank = ACE, face_up = True\<rparr> 0
     = Inr True \<and>
   can_accept_card \<lparr>pile_id = 0, cards = [\<lparr>suit_t = HEARTS, rank_t = ACE\<rparr>],
     is_foundation = True\<rparr> \<lparr>suit_t = HEARTS, rank_t = TWO\<rparr> \<and>
   \<not> can_accept_card \<lparr>pile_id = 0, cards = [\<lparr>suit_t = HEARTS, rank_t = ACE\<rparr>],
     is_foundation = True\<rparr> \<lparr>suit_t = SPADES, rank_t = TWO\<rparr>"
  using foundation_placement_rule [of hearts_in_waste 0 0
      "\<lparr>suit = HEART, rank = ACE, face_up = True\<rparr>" 0 "[\<lparr>suit_t = HEARTS, rank_t = ACE\<rparr>]"
      "\<lparr>suit_t = HEARTS, rank_t = TWO\<rparr>"]
    foundation_placement_rule [of hearts_in_waste 0 0
      "\<lparr>suit = HEART, rank = ACE, face_up = True\<rparr>" 0 "[\<lparr>suit_t = HEARTS, rank_t = ACE\<rparr>]"
      "\<lparr>suit_t = SPADES, rank_t = TWO\<rparr>"]
  by (simp add: hearts_in_waste_def py_index_def get_rank_value_def)

subsection \<open>Failed moves\<close>

lemma tableau_move_cases:
  "fst (move_to_tableau s fp t ci) = Inr True \<or> snd (move_to_tableau s fp t ci) = s"
  by (simp add: move_to_tableau_def Let_def split: source.split option.split list.split)

lemma place_on_foundation_succeeds:
  "py_index (foundations s) fi = Some f \<Longrightarrow>
   (\<And>i. fp = FromTableau i \<Longrightarrow> 0 \<le> i \<Longrightarrow> i < 7 \<Longrightarrow> py_index (tableau s) i \<noteq> None) \<Longrightarrow>
   fst (place_on_foundation s c fp fi) = Inr True"
  by (cases fp) (auto simp: place_on_foundation_def Let_def split: option.split)

lemma foundation_move_cases:
  "fst (move_to_foundation s fp fi) = Inr True \<or> snd (move_to_foundation s fp fi) = s"
proof (cases fp)
  case FromWaste
  show ?thesis
  proof (cases "waste s \<noteq> [] \<and> can_move_to_foundation s (last (waste s)) fi = Inr True")
    case True
    then obtain f where "py_index (foundations s) fi = Some f"
      by (auto simp: can_move_to_foundation_def split: option.splits)
    then have "fst (place_on_foundation (s\<lparr>waste := butlast (waste s)\<rparr>) (last (waste s))
        FromWaste fi) = Inr True"
      by (intro place_on_foundation_succeeds [where f = f]) simp_all
    with True FromWaste show ?thesis by (simp add: move_to_foundation_def)
  next
    case False
    then show ?thesis using FromWaste
      by (auto simp: move_to_foundation_def split: sum.split)
  qed
next
  case (FromTableau i)
  show ?thesis
  proof (cases "0 \<le> i \<and> i < 7")
    case False
    then show ?thesis using FromTableau by (auto simp: move_to_foundation_def)
  next
    case rng: True
    show ?thesis
    proof (cases "py_index (tableau s) i")
      case None
      then show ?thesis using FromTableau rng by (simp add: move_to_foundation_def)
    next
      case (Some j)
      let ?pile = "tableau s ! j"
      show ?thesis
      proof (cases "?pile \<noteq> [] \<and> face_up (last ?pile) \<and>
          can_move_to_foundation s (last ?pile) fi = Inr True")
        case True
        then obtain f where "py_index (foundations s) fi = Some f"
          by (auto simp: can_move_to_foundation_def split: option.splits)
        moreover have "py_index ((tableau s)[j := butlast ?pile]) i = Some j"
          using Some by (simp add: py_index_def)
        ultimately have "fst (place_on_foundation (s\<lparr>tableau := (tableau s)[j := butlast ?pile]\<rparr>)
            (last ?pile) (FromTableau i) fi) = Inr True"
          by (intro place_on_foundation_succeeds [where f = f]) simp_all
        with True FromTableau rng Some show ?thesis
          by (simp add: move_to_foundation_def Let_def)
      next
        case False
        then show ?thesis using FromTableau rng Some
          by (auto simp: move_to_foundation_def Let_def split: sum.split)
      qed
    qed
  qed
qed

text \<open>
  Claim C7. A call of \<open>move_to_tableau\<close> (from the waste or from a column) or of
  \<open>move_to_foundation\<close> that does not return \<open>True\<close>, whether it returns \<open>False\<close> or
  raises on an index out of range, leaves the whole state as it was: every pile, every
  face flag and the move counter.
\<close>

theorem failed_move_changes_nothing:
  "(fst (move_to_tableau s fp t ci) \<noteq> Inr True \<longrightarrow> snd (move_to_tableau s fp t ci) = s) \<and>
   (fst (move_to_foundation s fp fi) \<noteq> Inr True \<longrightarrow> snd (move_to_foundation s fp fi) = s)"
  using tableau_move_cases [of s fp t ci] foundation_move_cases [of s fp fi] by blast

theorem failed_move_changes_nothing_witness:
  "fst (move_to_tableau five_in_waste FromWaste 3 0) \<noteq> Inr True \<and>
   snd (move_to_tableau five_in_waste FromWaste 3 0) = five_in_waste \<and>
   fst (move_to_foundation five_in_waste FromWaste 0) \<noteq> Inr True \<and>
   snd (move_to_foundation five_in_waste FromWaste 0) = five_in_waste"
  using failed_move_changes_nothing [of five_in_waste FromWaste 3 0 0]
  by (simp add: five_in_waste_def move_to_tableau_def move_to_foundation_def
      can_move_to_foundation_def can_place_on_tableau_def py_index_def Let_def)

subsection \<open>Drawing and recycling\<close>

lemma recycle_eq:
  "recycle s = s\<lparr>waste := [],
                 stock := stock s @ map (\<lambda>c. c\<lparr>face_up := False\<rparr>) (rev (waste s))\<rparr>"
proof (induction s rule: recycle.induct)
  case (1 s)
  show ?case
  proof (cases "waste s = []")
    case True
    then show ?thesis by (simp add: recycle.simps [of s])
  next
    case False
    then have w: "waste s = butlast (waste s) @ [last (waste s)]" by simp
    have r: "rev (waste s) = last (waste s) # rev (butlast (waste s))"
      by (subst w) simp
    have "recycle s = recycle (s\<lparr>waste := butlast (waste s),
        stock := stock s @ [(last (waste s))\<lparr>face_up := False\<rparr>]\<rparr>)"
      using False by (simp add: recycle.simps [of s])
    also have "\<dots> = s\<lparr>waste := [], stock := stock s @
        (last (waste s))\<lparr>face_up := False\<rparr> #
        map (\<lambda>c. c\<lparr>face_up := False\<rparr>) (rev (butlast (waste s)))\<rparr>"
      using 1 [OF False] by simp
    finally show ?thesis by (simp only: r list.map)
  qed
qed

lemma draw_n:
  "n \<le> length (stock s) \<Longrightarrow>
   (draw_from_stock ^^ n) s =
     s\<lparr>stock := take (length (stock s) - n) (stock s),
       waste := waste s @ map (\<lambda>c. c\<lparr>face_up := True\<rparr>)
                  (rev (drop (length (stock s) - n) (stock s))),
       moves := moves s + int n\<rparr>"
proof (induction n)
  case 0
  then show ?case by simp
next
  case (Suc n)
  let ?m = "length (stock s) - Suc n"
  have m: "length (stock s) - n = Suc ?m" using Suc.prems by simp
  have ne: "take (Suc ?m) (stock s) \<noteq> []" using Suc.prems by auto
  have lst: "last (take (Suc ?m) (stock s)) = stock s ! ?m"
    using Suc.prems by (simp add: take_Suc_conv_app_nth)
  have bl: "butlast (take (Suc ?m) (stock s)) = take ?m (stock s)"
    using Suc.prems by (simp add: take_Suc_conv_app_nth)
  have dr: "drop ?m (stock s) = stock s ! ?m # drop (Suc ?m) (stock s)"
    using Suc.prems by (simp add: Cons_nth_drop_Suc)
  have "(draw_from_stock ^^ Suc n) s = draw_from_stock ((draw_from_stock ^^ n) s)" by simp
  also have "\<dots> = draw_from_stock
      (s\<lparr>stock := take (Suc ?m) (stock s),
         waste := waste s @ map (\<lambda>c. c\<lparr>face_up := True\<rparr>) (rev (drop (Suc ?m) (stock s))),
         moves := moves s + int n\<rparr>)"
    using Suc by (simp add: m)
  also have "\<dots> = s\<lparr>stock := take ?m (stock s),
       waste := waste s @ map (\<lambda>c. c\<lparr>face_up := True\<rparr>) (rev (drop ?m (stock s))),
       moves := moves s + int (Suc n)\<rparr>"
    using ne by (simp add: draw_from_stock_def Let_def lst bl dr)
  finally show ?case .
qed

lemma draw_from_deck_n:
  "n \<le> length (deck_cards g) \<Longrightarrow>
   (draw_from_deck sh ^^ n) g =
     g\<lparr>deck_cards := take (length (deck_cards g) - n) (deck_cards g),
       waste_pile := waste_pile g @ rev (drop (length (deck_cards g) - n) (deck_cards g)),
       moves_t := moves_t g + int n,
       move_history := move_history g @ replicate n Deck_entry\<rparr>"
proof (induction n)
  case 0
  then show ?case by simp
next
  case (Suc n)
  let ?m = "length (deck_cards g) - Suc n"
  have m: "length (deck_cards g) - n = Suc ?m" using Suc.prems by simp
  have ne: "take (Suc ?m) (deck_cards g) \<noteq> []" using Suc.prems by auto
  have lst: "last (take (Suc ?m) (deck_cards g)) = deck_cards g ! ?m"
    using Suc.prems by (simp add: take_Suc_conv_app_nth)
  have bl: "butlast (take (Suc ?m) (deck_cards g)) = take ?m (deck_cards g)"
    using Suc.prems by (simp add: take_Suc_conv_app_nth)
  have dr: "drop ?m (deck_cards g) = deck_cards g ! ?m # drop (Suc ?m) (deck_cards g)"
    using Suc.prems by (simp add: Cons_nth_drop_Suc)
  have "(draw_from_deck sh ^^ Suc n) g = draw_from_deck sh ((draw_from_deck sh ^^ n) g)"
    by simp
  also have "\<dots> = draw_from_deck sh
      (g\<lparr>deck_cards := take (Suc ?m) (deck_cards g),
         waste_pile := waste_pile g @ rev (drop (Suc ?m) (deck_cards g)),
         moves_t := moves_t g + int n,
         move_history := move_history g @ replicate n Deck_entry\<rparr>)"
    using Suc by (simp add: m)
  also have "\<dots> = g\<lparr>deck_cards := take ?m (deck_cards g),
       waste_pile := waste_pile g @ rev (drop ?m (deck_cards g)),
       moves_t := moves_t g + int (Suc n),
       move_history := move_history g @ replicate (Suc n) Deck_entry\<rparr>"
    using ne by (simp add: draw_from_deck_def lst bl dr replicate_append_same)
  finally show ?case .
qed

text \<open>
  Claim C2, as amended. In the Tkinter engine a draw on an empty stock moves every waste
  card back to the stock in the reverse of the waste order, each turned face-down, and
  changes nothing else: the move counter stays, and the result is a function of the state
  alone. The stock that results from drawing a whole stock and recycling is the stock
  that was drawn, so the draw order is restored. In \<open>text.py\<close> a draw on an empty deck
  hands the waste to \<open>random.shuffle\<close>, makes the outcome the new deck, counts one move
  and logs a reshuffle.
\<close>

theorem recycle_behaviour:
  "(stock s = [] \<longrightarrow>
      draw_from_stock s =
        s\<lparr>waste := [], stock := map (\<lambda>c. c\<lparr>face_up := False\<rparr>) (rev (waste s))\<rparr>) \<and>
   (waste s = [] \<longrightarrow>
      stock ((draw_from_stock ^^ Suc (length (stock s))) s) =
        map (\<lambda>c. c\<lparr>face_up := False\<rparr>) (stock s)) \<and>
   (deck_cards g = [] \<longrightarrow>
      draw_from_deck sh g =
        g\<lparr>deck_cards := sh (waste_pile g), waste_pile := [], moves_t := moves_t g + 1,
          move_history := move_history g @ [Reshuffle_entry]\<rparr>)"
proof (intro conjI impI)
  assume "stock s = []"
  then show "draw_from_stock s =
      s\<lparr>waste := [], stock := map (\<lambda>c. c\<lparr>face_up := False\<rparr>) (rev (waste s))\<rparr>"
    by (simp add: draw_from_stock_def recycle_eq)
next
  assume w: "waste s = []"
  let ?s' = "(draw_from_stock ^^ length (stock s)) s"
  have s': "?s' = s\<lparr>stock := [],
      waste := map (\<lambda>c. c\<lparr>face_up := True\<rparr>) (rev (stock s)),
      moves := moves s + int (length (stock s))\<rparr>"
    using draw_n [of "length (stock s)" s] w by simp
  have "(draw_from_stock ^^ Suc (length (stock s))) s = draw_from_stock ?s'" by simp
  also have "stock (draw_from_stock ?s') = map (\<lambda>c. c\<lparr>face_up := False\<rparr>) (stock s)"
    by (simp add: s' draw_from_stock_def recycle_eq rev_map o_def)
  finally show "stock ((draw_from_stock ^^ Suc (length (stock s))) s) =
      map (\<lambda>c. c\<lparr>face_up := False\<rparr>) (stock s)" .
next
  assume "deck_cards g = []"
  then show "draw_from_deck sh g =
      g\<lparr>deck_cards := sh (waste_pile g), waste_pile := [], moves_t := moves_t g + 1,
        move_history := move_history g @ [Reshuffle_entry]\<rparr>"
    by (simp add: draw_from_deck_def)
qed

theorem recycle_behaviour_witness:
  "stock five_in_waste = [] \<and>
   draw_from_stock five_in_waste =
     \<lparr>stock = [\<lparr>suit = HEART, rank = QUEEN, face_up = False\<rparr>,
               \<lparr>suit = DIAMOND, rank = TWO, face_up = False\<rparr>,
               \<lparr>suit = CLUB, rank = KING, face_up = False\<rparr>,
               \<lparr>suit = SPADE, rank = SEVEN, face_up = False\<rparr>,
               \<lparr>suit = HEART, rank = ACE, face_up = False\<rparr>],
      waste = [], foundations = [[], [], [], []],
      tableau = [[], [], [], [], [], [], []], moves = 5\<rparr> \<and>
   waste (draw_from_stock five_in_waste) = [] \<and>
   stock ((draw_from_stock ^^ Suc (length (stock (draw_from_stock five_in_waste))))
            (draw_from_stock five_in_waste)) =
     stock (draw_from_stock five_in_waste) \<and>
   deck_cards two_in_waste_t = [] \<and>
   draw_from_deck rev two_in_waste_t =
     \<lparr>deck_cards = [\<lparr>suit_t = SPADES, rank_t = SEVEN\<rparr>, \<lparr>suit_t = HEARTS, rank_t = ACE\<rparr>],
      waste_pile = [],
      foundation_piles = foundation_piles two_in_waste_t,
      tableau_piles = tableau_piles two_in_waste_t,
      selected_card = None, selected_pile = None,
      moves_t = 3,
      move_history = [Deck_entry, Deck_entry, Reshuffle_entry]\<rparr>"
  using recycle_behaviour [of five_in_waste two_in_waste_t rev]
    recycle_behaviour [of "draw_from_stock five_in_waste" two_in_waste_t rev]
  by (simp add: five_in_waste_def two_in_waste_t_def)

text \<open>
  In \<open>text.py\<close> the recycle counts a move, and when the shuffle happens to leave the list as
  it is, the new deck is the waste in its own order, not reversed.
\<close>

theorem text_recycle_counterexample:
  "deck_cards two_in_waste_t = [] \<and>
   moves_t (draw_from_deck id two_in_waste_t) \<noteq> moves_t two_in_waste_t \<and>
   deck_cards (draw_from_deck id two_in_waste_t) \<noteq> rev (waste_pile two_in_waste_t)"
  by (simp add: two_in_waste_t_def draw_from_deck_def)

text \<open>
  Claim C3, as amended. In the Tkinter engine, from a state with an empty stock, the
  recycle followed by as many draws as the waste held cards leaves the stock empty and
  the waste with the same cards in the same order, all face-up; when the waste was all
  face-up, as it is in every reachable state, the waste is exactly what it was. In
  \<open>text.py\<close> the same round trip leaves the waste in the reverse of the order that
  \<open>random.shuffle\<close> produced.
\<close>

theorem recycle_round_trip:
  "(stock s = [] \<longrightarrow>
      waste ((draw_from_stock ^^ length (waste s)) (draw_from_stock s)) =
        map (\<lambda>c. c\<lparr>face_up := True\<rparr>) (waste s) \<and>
      map ident (waste ((draw_from_stock ^^ length (waste s)) (draw_from_stock s))) =
        map ident (waste s) \<and>
      stock ((draw_from_stock ^^ length (waste s)) (draw_from_stock s)) = []) \<and>
   (stock s = [] \<and> list_all face_up (waste s) \<longrightarrow>
      waste ((draw_from_stock ^^ length (waste s)) (draw_from_stock s)) = waste s) \<and>
   (deck_cards g = [] \<longrightarrow>
      waste_pile ((draw_from_deck sh ^^ length (sh (waste_pile g))) (draw_from_deck sh g)) =
        rev (sh (waste_pile g)))"
proof -
  have engine: "waste ((draw_from_stock ^^ length (waste s)) (draw_from_stock s)) =
        map (\<lambda>c. c\<lparr>face_up := True\<rparr>) (waste s) \<and>
      stock ((draw_from_stock ^^ length (waste s)) (draw_from_stock s)) = []"
    if e: "stock s = []"
  proof -
    let ?r = "draw_from_stock s"
    have r: "?r = s\<lparr>waste := [], stock := map (\<lambda>c. c\<lparr>face_up := False\<rparr>) (rev (waste s))\<rparr>"
      using e by (simp add: draw_from_stock_def recycle_eq)
    have len: "length (stock ?r) = length (waste s)" by (simp add: r)
    have "(draw_from_stock ^^ length (waste s)) ?r =
        ?r\<lparr>stock := take (length (stock ?r) - length (waste s)) (stock ?r),
           waste := waste ?r @ map (\<lambda>c. c\<lparr>face_up := True\<rparr>)
                      (rev (drop (length (stock ?r) - length (waste s)) (stock ?r))),
           moves := moves ?r + int (length (waste s))\<rparr>"
      by (rule draw_n) (simp add: len)
    then show ?thesis
      by (simp add: len) (simp add: r rev_map o_def)
  qed
  have same: "map (\<lambda>c. c\<lparr>face_up := True\<rparr>) xs = xs" if "list_all face_up xs" for xs :: "Card list"
    using that by (induction xs) simp_all
  have idents: "map ident (map (\<lambda>c. c\<lparr>face_up := True\<rparr>) xs) = map ident xs" for xs
    by (simp add: ident_def o_def)
  have other: "waste_pile ((draw_from_deck sh ^^ length (sh (waste_pile g)))
        (draw_from_deck sh g)) = rev (sh (waste_pile g))"
    if e: "deck_cards g = []"
  proof -
    let ?r = "draw_from_deck sh g"
    have r: "?r = g\<lparr>deck_cards := sh (waste_pile g), waste_pile := [],
        moves_t := moves_t g + 1, move_history := move_history g @ [Reshuffle_entry]\<rparr>"
      using e by (simp add: draw_from_deck_def)
    have len: "length (deck_cards ?r) = length (sh (waste_pile g))" by (simp add: r)
    have "(draw_from_deck sh ^^ length (sh (waste_pile g))) ?r =
        ?r\<lparr>deck_cards := take (length (deck_cards ?r) - length (sh (waste_pile g)))
                            (deck_cards ?r),
           waste_pile := waste_pile ?r @
             rev (drop (length (deck_cards ?r) - length (sh (waste_pile g))) (deck_cards ?r)),
           moves_t := moves_t ?r + int (length (sh (waste_pile g))),
           move_history := move_history ?r @
             replicate (length (sh (waste_pile g))) Deck_entry\<rparr>"
      by (rule draw_from_deck_n) (simp add: len)
    then show ?thesis
      by (simp add: len) (simp add: r)
  qed
  show ?thesis
    using engine same [of "waste s"] idents [of "waste s"] other by auto
qed

theorem recycle_round_trip_witness:
  "stock five_in_waste = [] \<and> list_all face_up (waste five_in_waste) \<and>
   length (waste five_in_waste) = 5 \<and>
   waste ((draw_from_stock ^^ 5) (draw_from_stock five_in_waste)) = waste five_in_waste \<and>
   stock ((draw_from_stock ^^ 5) (draw_from_stock five_in_waste)) = [] \<and>
   deck_cards two_in_waste_t = [] \<and>
   waste_pile ((draw_from_deck rev ^^ 2) (draw_from_deck rev two_in_waste_t)) =
     waste_pile two_in_waste_t"
proof -
  have a: "stock five_in_waste = []" "list_all face_up (waste five_in_waste)"
    "length (waste five_in_waste) = 5"
    "map (\<lambda>c. c\<lparr>face_up := True\<rparr>) (waste five_in_waste) = waste five_in_waste"
    by (simp_all add: five_in_waste_def)
  have b: "deck_cards two_in_waste_t = []" "length (rev (waste_pile two_in_waste_t)) = 2"
    "rev (rev (waste_pile two_in_waste_t)) = waste_pile two_in_waste_t"
    by (simp_all add: two_in_waste_t_def)
  show ?thesis
    using recycle_round_trip [of five_in_waste two_in_waste_t rev] a b
    by (simp del: funpow.simps)
qed

text \<open>
  In \<open>text.py\<close>, when the shuffle happens to leave the list as it is, the round trip
  returns the two waste cards in the opposite order.
\<close>

theorem text_round_trip_counterexample:
  "deck_cards two_in_waste_t = [] \<and> length (waste_pile two_in_waste_t) = 2 \<and>
   waste_pile (draw_from_deck id (draw_from_deck id (draw_from_deck id two_in_waste_t))) \<noteq>
     waste_pile two_in_waste_t"
  by (simp add: two_in_waste_t_def draw_from_deck_def)

subsection \<open>The tableau invariant\<close>

lemma run_ok_append:
  "run_ok (xs @ ys) \<longleftrightarrow>
     run_ok xs \<and> run_ok ys \<and>
     (xs \<noteq> [] \<and> ys \<noteq> [] \<longrightarrow>
        RANK_VALUES (rank (hd ys)) < RANK_VALUES (rank (last xs)) \<and>
        color (last xs) \<noteq> color (hd ys))"
proof (induction xs rule: run_ok.induct)
  case 1
  then show ?case by simp
next
  case (2 c)
  then show ?case by (cases ys) auto
next
  case (3 a b cs)
  then show ?case by auto
qed

lemma run_ok_take: "run_ok xs \<Longrightarrow> run_ok (take k xs)"
  using run_ok_append [of "take k xs" "drop k xs"] by simp

lemma run_ok_drop: "run_ok xs \<Longrightarrow> run_ok (drop k xs)"
  using run_ok_append [of "take k xs" "drop k xs"] by simp

lemma run_ok_last_le_all:
  "run_ok xs \<Longrightarrow> \<forall>c\<in>set xs. RANK_VALUES (rank (last xs)) \<le> RANK_VALUES (rank c)"
proof (induction xs rule: run_ok.induct)
  case 1
  then show ?case by simp
next
  case (2 a)
  then show ?case by simp
next
  case (3 a b cs)
  then have ih: "\<forall>c\<in>set (b # cs). RANK_VALUES (rank (last (b # cs))) \<le> RANK_VALUES (rank c)"
    by simp
  then have "RANK_VALUES (rank (last (b # cs))) \<le> RANK_VALUES (rank b)" by simp
  moreover have "RANK_VALUES (rank b) < RANK_VALUES (rank a)" using 3 by simp
  moreover have "last (a # b # cs) = last (b # cs)" by simp
  ultimately show ?case using ih by auto
qed

lemma run_ok_last_le:
  "run_ok xs \<Longrightarrow> c \<in> set xs \<Longrightarrow> RANK_VALUES (rank (last xs)) \<le> RANK_VALUES (rank c)"
  using run_ok_last_le_all by blast

lemma takeWhile_none: "\<forall>x\<in>set xs. \<not> P x \<Longrightarrow> takeWhile P xs = []"
  by (cases xs) simp_all

lemma dropWhile_none: "\<forall>x\<in>set xs. \<not> P x \<Longrightarrow> dropWhile P xs = xs"
  by (cases xs) simp_all

lemma tableau_inv_split:
  assumes "\<forall>c\<in>set ds. \<not> face_up c" and "\<forall>c\<in>set us. face_up c"
  shows "face_up_suffix (ds @ us) = us" and "below_suffix (ds @ us) = ds"
proof -
  have a: "\<And>x. x \<in> set (rev us) \<Longrightarrow> face_up x" using assms by simp
  have b: "\<forall>x\<in>set (rev ds). \<not> face_up x" using assms by simp
  have t: "takeWhile face_up (rev us @ rev ds) = rev us"
    by (simp only: takeWhile_append2 [OF a] takeWhile_none [OF b] append_Nil2)
  have d: "dropWhile face_up (rev us @ rev ds) = rev ds"
    by (simp only: dropWhile_append2 [OF a] dropWhile_none [OF b])
  show "face_up_suffix (ds @ us) = us" by (simp add: face_up_suffix_def t)
  show "below_suffix (ds @ us) = ds" by (simp add: below_suffix_def d)
qed

lemma suffix_decomposition:
  "p = below_suffix p @ face_up_suffix p" "\<forall>c\<in>set (face_up_suffix p). face_up c"
proof -
  have "rev (dropWhile face_up (rev p)) @ rev (takeWhile face_up (rev p)) =
      rev (takeWhile face_up (rev p) @ dropWhile face_up (rev p))"
    by (simp only: rev_append)
  also have "\<dots> = p" by (simp only: takeWhile_dropWhile_id rev_rev_ident)
  finally show "p = below_suffix p @ face_up_suffix p"
    by (simp only: below_suffix_def face_up_suffix_def)
  show "\<forall>c\<in>set (face_up_suffix p). face_up c"
    by (auto simp: face_up_suffix_def dest: set_takeWhileD)
qed

lemma tableau_inv_iff:
  "tableau_inv p \<longleftrightarrow>
     (\<exists>ds us. p = ds @ us \<and> (\<forall>c\<in>set ds. \<not> face_up c) \<and> (\<forall>c\<in>set us. face_up c) \<and>
        run_ok us)"
proof
  assume inv: "tableau_inv p"
  show "\<exists>ds us. p = ds @ us \<and> (\<forall>c\<in>set ds. \<not> face_up c) \<and> (\<forall>c\<in>set us. face_up c) \<and>
        run_ok us"
  proof (intro exI conjI)
    show "p = below_suffix p @ face_up_suffix p" by (rule suffix_decomposition)
    show "\<forall>c\<in>set (below_suffix p). \<not> face_up c"
      using inv by (simp add: tableau_inv_def list_all_iff)
    show "\<forall>c\<in>set (face_up_suffix p). face_up c" by (rule suffix_decomposition)
    show "run_ok (face_up_suffix p)" using inv by (simp add: tableau_inv_def)
  qed
next
  assume "\<exists>ds us. p = ds @ us \<and> (\<forall>c\<in>set ds. \<not> face_up c) \<and> (\<forall>c\<in>set us. face_up c) \<and>
        run_ok us"
  then obtain ds us where p: "p = ds @ us" and ds: "\<forall>c\<in>set ds. \<not> face_up c"
    and us: "\<forall>c\<in>set us. face_up c" and run: "run_ok us"
    by blast
  show "tableau_inv p"
    using run ds by (simp add: tableau_inv_def p tableau_inv_split [OF ds us] list_all_iff)
qed

lemma tableau_invI:
  "(\<forall>c\<in>set ds. \<not> face_up c) \<Longrightarrow> (\<forall>c\<in>set us. face_up c) \<Longrightarrow> run_ok us \<Longrightarrow>
   tableau_inv (ds @ us)"
  by (auto simp: tableau_inv_iff)

text \<open>The face-up card at an index of a pile lies in the run, together with all above it.\<close>

lemma face_up_index_in_run:
  assumes p: "p = ds @ us" and ds: "\<forall>c\<in>set ds. \<not> face_up c" and k: "k < length p"
    and up: "face_up (p ! k)"
  shows "length ds \<le> k" and "drop k p = drop (k - length ds) us"
    and "take k p = ds @ take (k - length ds) us"
proof -
  show le: "length ds \<le> k"
  proof (rule ccontr)
    assume "\<not> length ds \<le> k"
    then have "k < length ds" by simp
    then have "p ! k \<in> set ds" by (simp add: p nth_append)
    with ds up show False by blast
  qed
  show "drop k p = drop (k - length ds) us" using le by (simp add: p)
  show "take k p = ds @ take (k - length ds) us" using le by (simp add: p)
qed

lemma own_run_not_placeable:
  assumes inv: "tableau_inv p" and k: "k < length p" and up: "face_up (p ! k)"
  shows "\<not> can_place_on_tableau (p ! k) p"
proof -
  from inv obtain ds us where p: "p = ds @ us" and ds: "\<forall>c\<in>set ds. \<not> face_up c"
    and run: "run_ok us"
    by (auto simp: tableau_inv_iff)
  have le: "length ds \<le> k" by (rule face_up_index_in_run [OF p ds k up])
  then have mem: "p ! k \<in> set us" and ne: "us \<noteq> []"
    using k by (auto simp: p nth_append)
  have "last p = last us" using ne by (simp add: p)
  moreover have "RANK_VALUES (rank (last us)) \<le> RANK_VALUES (rank (p ! k))"
    by (rule run_ok_last_le [OF run mem])
  moreover have "p \<noteq> []" using k by auto
  ultimately show ?thesis
    by (simp add: can_place_on_tableau_def Let_def)
qed

lemma tableau_inv_take: "tableau_inv p \<Longrightarrow> tableau_inv (take k p)"
proof -
  assume "tableau_inv p"
  then obtain ds us where p: "p = ds @ us" and ds: "\<forall>c\<in>set ds. \<not> face_up c"
    and us: "\<forall>c\<in>set us. face_up c" and run: "run_ok us"
    by (auto simp: tableau_inv_iff)
  have "take k p = take k ds @ take (k - length ds) us" by (simp add: p)
  moreover have "tableau_inv (take k ds @ take (k - length ds) us)"
  proof (rule tableau_invI)
    show "\<forall>c\<in>set (take k ds). \<not> face_up c" using ds by (auto dest: in_set_takeD)
    show "\<forall>c\<in>set (take (k - length ds) us). face_up c" using us by (auto dest: in_set_takeD)
    show "run_ok (take (k - length ds) us)" using run by (rule run_ok_take)
  qed
  ultimately show ?thesis by simp
qed

lemma tableau_inv_flip_top: "tableau_inv p \<Longrightarrow> tableau_inv (flip_top p)"
proof -
  assume "tableau_inv p"
  then obtain ds us where p: "p = ds @ us" and ds: "\<forall>c\<in>set ds. \<not> face_up c"
    and us: "\<forall>c\<in>set us. face_up c" and run: "run_ok us"
    by (auto simp: tableau_inv_iff)
  show ?thesis
  proof (cases "p \<noteq> [] \<and> \<not> face_up (last p)")
    case False
    then have "flip_top p = p" by (auto simp: flip_top_def)
    with \<open>tableau_inv p\<close> show ?thesis by simp
  next
    case True
    have "us = []"
    proof (rule ccontr)
      assume "us \<noteq> []"
      then have "last p = last us" "last us \<in> set us" by (simp_all add: p)
      with us True show False by auto
    qed
    then have "flip_top p = butlast ds @ [(last ds)\<lparr>face_up := True\<rparr>]"
      using True by (simp add: flip_top_def p)
    moreover have "tableau_inv (butlast ds @ [(last ds)\<lparr>face_up := True\<rparr>])"
      using ds by (intro tableau_invI) (auto dest: in_set_butlastD)
    ultimately show ?thesis by simp
  qed
qed

lemma tableau_inv_append_run:
  assumes inv: "tableau_inv p" and up: "\<forall>c\<in>set run. face_up c" and run: "run_ok run"
    and ne: "run \<noteq> []" and place: "can_place_on_tableau (hd run) p"
  shows "tableau_inv (p @ run)"
proof -
  from inv obtain ds us where p: "p = ds @ us" and ds: "\<forall>c\<in>set ds. \<not> face_up c"
    and us: "\<forall>c\<in>set us. face_up c" and r: "run_ok us"
    by (auto simp: tableau_inv_iff)
  have "tableau_inv (ds @ (us @ run))"
  proof (rule tableau_invI)
    show "\<forall>c\<in>set ds. \<not> face_up c" by (rule ds)
    show "\<forall>c\<in>set (us @ run). face_up c" using us up by auto
    show "run_ok (us @ run)"
    proof (cases "us = []")
      case True
      then show ?thesis using run by simp
    next
      case False
      then have "last p = last us" "p \<noteq> []" by (simp_all add: p)
      with place have "RANK_VALUES (rank (hd run)) < RANK_VALUES (rank (last us)) \<and>
          color (last us) \<noteq> color (hd run)"
        by (auto simp: can_place_on_tableau_def Let_def)
      with r run show ?thesis by (simp add: run_ok_append)
    qed
  qed
  then show ?thesis by (simp add: p)
qed

lemma lifted_run:
  assumes inv: "tableau_inv p" and k: "k < length p" and up: "face_up (p ! k)"
  shows "\<forall>c\<in>set (drop k p). face_up c" and "run_ok (drop k p)"
proof -
  from inv obtain ds us where p: "p = ds @ us" and ds: "\<forall>c\<in>set ds. \<not> face_up c"
    and us: "\<forall>c\<in>set us. face_up c" and r: "run_ok us"
    by (auto simp: tableau_inv_iff)
  have d: "drop k p = drop (k - length ds) us" by (rule face_up_index_in_run [OF p ds k up])
  show "\<forall>c\<in>set (drop k p). face_up c" using us by (auto simp: d dest: in_set_dropD)
  show "run_ok (drop k p)" using r by (simp add: d run_ok_drop)
qed

subsection \<open>Moving a run between columns\<close>

lemma py_index_in_range: "0 \<le> i \<Longrightarrow> i < int (length xs) \<Longrightarrow> py_index xs i = Some (nat i)"
  by (simp add: py_index_def)

lemma py_index_Some_iff:
  "py_index xs i = Some k \<longleftrightarrow>
     (0 \<le> i \<and> i < int (length xs) \<and> k = nat i) \<or>
     (- int (length xs) \<le> i \<and> i < 0 \<and> k = nat (int (length xs) + i))"
  by (auto simp: py_index_def Let_def)

lemma flip_top_eq:
  "flip_top p = (if p = [] then [] else butlast p @ [(last p)\<lparr>face_up := True\<rparr>])"
proof (cases "p = []")
  case True
  then show ?thesis by (simp add: flip_top_def)
next
  case False
  then have p: "butlast p @ [last p] = p" by simp
  show ?thesis
  proof (cases "face_up (last p)")
    case True
    then have "(last p)\<lparr>face_up := True\<rparr> = last p" by simp
    then have "butlast p @ [(last p)\<lparr>face_up := True\<rparr>] = p" using p by simp
    then show ?thesis using False True by (simp add: flip_top_def)
  next
    case f: False
    then show ?thesis using False by (simp add: flip_top_def)
  qed
qed

lemma list_case_nonempty:
  "xs \<noteq> [] \<Longrightarrow> (case xs of [] \<Rightarrow> a | y # ys \<Rightarrow> g y ys) = g (hd xs) (tl xs)"
  by (cases xs) simp_all

text \<open>The column branch of \<open>move_to_tableau\<close>, once the source column is known.\<close>

lemma move_from_column:
  assumes i: "0 \<le> i" "i < 7" and f: "py_index (tableau s) i = Some f"
  shows "move_to_tableau s (FromTableau i) to ci =
     (if ci < int (length (tableau s ! f)) then
        (case py_index (tableau s ! f) ci of
           None \<Rightarrow> (Inl IndexError, s)
         | Some k \<Rightarrow>
             if face_up (tableau s ! f ! k) then
               (case py_index (tableau s) to of
                  None \<Rightarrow> (Inl IndexError, s)
                | Some t \<Rightarrow>
                    if can_place_on_tableau (tableau s ! f ! k) (tableau s ! t) then
                      (Inr True,
                       s\<lparr>tableau :=
                           ((tableau s)[t := tableau s ! t @ drop k (tableau s ! f)])
                           [f := flip_top
                              (take (slice_from
                                 (((tableau s)[t := tableau s ! t @ drop k (tableau s ! f)]) ! f) ci)
                                 (((tableau s)[t := tableau s ! t @ drop k (tableau s ! f)]) ! f))],
                         moves := moves s + 1\<rparr>)
                    else (Inr False, s))
             else (Inr False, s))
      else (Inr False, s))"
proof (cases "py_index (tableau s ! f) ci")
  case None
  then show ?thesis using i f by (simp add: move_to_tableau_def Let_def)
next
  case (Some k)
  let ?p = "tableau s ! f"
  have k: "k < length ?p" by (rule py_index_lt [OF Some])
  have sl: "slice_from ?p ci = k" by (rule slice_from_py_index [OF Some])
  have ne: "drop k ?p \<noteq> []" using k by simp
  have hd: "hd (drop k ?p) = ?p ! k" using k by (simp add: hd_drop_conv_nth)
  have col: "hd (drop k ?p) # tl (drop k ?p) = drop k ?p" using ne by simp
  show ?thesis
    using i f Some
    by (simp add: move_to_tableau_def Let_def sl list_case_nonempty [OF ne] col
        split: option.split)
      (simp add: hd)
qed

lemma take_flip_top:
  "k \<le> length p \<Longrightarrow>
   flip_top (take k p) =
     (if k = 0 then [] else take (k - 1) p @ [(p ! (k - 1))\<lparr>face_up := True\<rparr>])"
proof (cases k)
  case 0
  then show ?thesis by (simp add: flip_top_eq)
next
  case (Suc m)
  assume "k \<le> length p"
  then have "take k p = take m p @ [p ! m]" using Suc by (simp add: take_Suc_conv_app_nth)
  then show ?thesis using Suc by (simp add: flip_top_eq)
qed

lemma column_run_move:
  assumes len: "length (tableau s) = 7"
  shows "(fst (move_to_tableau s (FromTableau i) to_pile_idx card_idx) = Inr True \<longleftrightarrow>
      (\<exists>k t. 0 \<le> i \<and> i < 7 \<and>
         py_index (tableau s ! nat i) card_idx = Some k \<and> face_up (tableau s ! nat i ! k) \<and>
         py_index (tableau s) to_pile_idx = Some t \<and>
         can_place_on_tableau (tableau s ! nat i ! k) (tableau s ! t))) \<and>
   (fst (move_to_tableau s (FromTableau i) to_pile_idx card_idx) = Inr True \<and>
    py_index (tableau s ! nat i) card_idx = Some k \<and>
    py_index (tableau s) to_pile_idx = Some t \<and>
    (t \<noteq> nat i \<or> tableau_inv (tableau s ! nat i)) \<longrightarrow>
      t \<noteq> nat i \<and>
      snd (move_to_tableau s (FromTableau i) to_pile_idx card_idx) =
        s\<lparr>tableau := (tableau s)
             [t := tableau s ! t @ drop k (tableau s ! nat i),
              nat i := (if k = 0 then []
                        else take (k - 1) (tableau s ! nat i) @
                             [(tableau s ! nat i ! (k - 1))\<lparr>face_up := True\<rparr>])],
          moves := moves s + 1\<rparr>)"
proof (cases "0 \<le> i \<and> i < 7")
  case False
  then show ?thesis by (auto simp: move_to_tableau_def)
next
  case True
  let ?p = "tableau s ! nat i"
  let ?r = "move_to_tableau s (FromTableau i) to_pile_idx card_idx"
  have f: "py_index (tableau s) i = Some (nat i)"
    using True len by (simp add: py_index_def)
  note eq = move_from_column [OF _ _ f, of to_pile_idx card_idx]
  have lt: "card_idx < int (length ?p)" if "py_index ?p card_idx = Some k" for k
    using that by (auto simp: py_index_def Let_def split: if_splits)
  have iff: "fst ?r = Inr True \<longleftrightarrow>
      (\<exists>k t. 0 \<le> i \<and> i < 7 \<and>
         py_index ?p card_idx = Some k \<and> face_up (?p ! k) \<and>
         py_index (tableau s) to_pile_idx = Some t \<and>
         can_place_on_tableau (?p ! k) (tableau s ! t))"
    using True lt by (auto simp: eq split: option.splits)
  have effect: "t \<noteq> nat i \<and> snd ?r =
        s\<lparr>tableau := (tableau s)
             [t := tableau s ! t @ drop k ?p,
              nat i := (if k = 0 then []
                        else take (k - 1) ?p @ [(?p ! (k - 1))\<lparr>face_up := True\<rparr>])],
          moves := moves s + 1\<rparr>"
    if ok: "fst ?r = Inr True" and k: "py_index ?p card_idx = Some k"
      and t: "py_index (tableau s) to_pile_idx = Some t"
      and d: "t \<noteq> nat i \<or> tableau_inv ?p"
  proof -
    have kl: "k < length ?p" by (rule py_index_lt [OF k])
    have cond: "face_up (?p ! k)" "can_place_on_tableau (?p ! k) (tableau s ! t)"
      using ok True k t lt [OF k] by (auto simp: eq split: if_splits)
    have ne: "t \<noteq> nat i"
    proof
      assume same: "t = nat i"
      with d have "tableau_inv ?p" by simp
      from own_run_not_placeable [OF this kl cond(1)] cond(2) same show False by simp
    qed
    have tl: "t < length (tableau s)" by (rule py_index_lt [OF t])
    have src: "((tableau s)[t := tableau s ! t @ drop k ?p]) ! nat i = ?p"
      using ne by simp
    have "snd ?r = s\<lparr>tableau := ((tableau s)[t := tableau s ! t @ drop k ?p])
          [nat i := flip_top (take k ?p)], moves := moves s + 1\<rparr>"
      using True k t cond lt [OF k]
      by (simp add: eq src slice_from_py_index [OF k])
    then show ?thesis
      using ne kl by (simp add: take_flip_top)
  qed
  show ?thesis using iff effect by blast
qed


lemma move_card_between_columns:
  assumes sel: "selected_card g \<noteq> None"
    and i: "i < length (tableau_piles g)" and j: "j < length (tableau_piles g)"
    and ne: "i \<noteq> j" and src: "cards (tableau_piles g ! i) \<noteq> []"
    and nw: "\<not> check_win g"
  shows "move_card restart g (TableauPile i) (TableauPile j) =
     (if can_accept_card (tableau_piles g ! j) (last (cards (tableau_piles g ! i)))
      then g\<lparr>tableau_piles := (tableau_piles g)
               [i := (tableau_piles g ! i)\<lparr>cards := butlast (cards (tableau_piles g ! i))\<rparr>,
                j := (tableau_piles g ! j)\<lparr>cards := cards (tableau_piles g ! j) @
                       [last (cards (tableau_piles g ! i))]\<rparr>],
             selected_card := None, selected_pile := None,
             moves_t := moves_t g + 1,
             move_history := move_history g @
               [Move_entry (TableauPile i) (TableauPile j) (last (cards (tableau_piles g ! i)))]\<rparr>
      else g\<lparr>selected_card := None, selected_pile := None\<rparr>)"
  using assms
  by (auto simp: move_card_def get_pile_def put_pile_def is_empty_def get_top_card_def
      add_card_def remove_card_def check_win_def Let_def)

text \<open>
  Claim C4, as amended. In the Tkinter engine a move of a run from column \<open>i\<close> succeeds
  exactly when \<open>i\<close> is a column, \<open>card_idx\<close> addresses a face-up card of it, the target
  index names a column, and that column accepts the addressed card. When it succeeds, and
  the target is another column (which is always so when the source column satisfies the
  tableau invariant), the whole suffix from the addressed card on is appended to the
  target in its order, the source keeps the cards below it with the new top card turned
  face-up, the move counter grows by one, and nothing else changes. In \<open>text.py\<close>,
  \<open>move_card\<close> between two columns looks at the top card of the source only: when the
  target accepts it, that one card moves and the move counter grows by one; otherwise
  nothing moves; either way the selection is cleared.
\<close>

theorem tableau_run_move:
  assumes len: "length (tableau s) = 7"
  shows "(fst (move_to_tableau s (FromTableau i) to_pile_idx card_idx) = Inr True \<longleftrightarrow>
      (\<exists>k t. 0 \<le> i \<and> i < 7 \<and>
         py_index (tableau s ! nat i) card_idx = Some k \<and> face_up (tableau s ! nat i ! k) \<and>
         py_index (tableau s) to_pile_idx = Some t \<and>
         can_place_on_tableau (tableau s ! nat i ! k) (tableau s ! t))) \<and>
   (fst (move_to_tableau s (FromTableau i) to_pile_idx card_idx) = Inr True \<and>
    py_index (tableau s ! nat i) card_idx = Some k \<and>
    py_index (tableau s) to_pile_idx = Some t \<and>
    (t \<noteq> nat i \<or> tableau_inv (tableau s ! nat i)) \<longrightarrow>
      t \<noteq> nat i \<and>
      snd (move_to_tableau s (FromTableau i) to_pile_idx card_idx) =
        s\<lparr>tableau := (tableau s)
             [t := tableau s ! t @ drop k (tableau s ! nat i),
              nat i := (if k = 0 then []
                        else take (k - 1) (tableau s ! nat i) @
                             [(tableau s ! nat i ! (k - 1))\<lparr>face_up := True\<rparr>])],
          moves := moves s + 1\<rparr>) \<and>
   (selected_card g \<noteq> None \<and> a < length (tableau_piles g) \<and> b < length (tableau_piles g) \<and>
    a \<noteq> b \<and> cards (tableau_piles g ! a) \<noteq> [] \<and> \<not> check_win g \<longrightarrow>
      move_card restart g (TableauPile a) (TableauPile b) =
        (if can_accept_card (tableau_piles g ! b) (last (cards (tableau_piles g ! a)))
         then g\<lparr>tableau_piles := (tableau_piles g)
                  [a := (tableau_piles g ! a)\<lparr>cards := butlast (cards (tableau_piles g ! a))\<rparr>,
                   b := (tableau_piles g ! b)\<lparr>cards := cards (tableau_piles g ! b) @
                          [last (cards (tableau_piles g ! a))]\<rparr>],
                selected_card := None, selected_pile := None,
                moves_t := moves_t g + 1,
                move_history := move_history g @
                  [Move_entry (TableauPile a) (TableauPile b)
                     (last (cards (tableau_piles g ! a)))]\<rparr>
         else g\<lparr>selected_card := None, selected_pile := None\<rparr>))"
proof (intro conjI)
  note engine = column_run_move [OF len, of i to_pile_idx card_idx k t]
  show "fst (move_to_tableau s (FromTableau i) to_pile_idx card_idx) = Inr True \<longleftrightarrow>
      (\<exists>k t. 0 \<le> i \<and> i < 7 \<and>
         py_index (tableau s ! nat i) card_idx = Some k \<and> face_up (tableau s ! nat i ! k) \<and>
         py_index (tableau s) to_pile_idx = Some t \<and>
         can_place_on_tableau (tableau s ! nat i ! k) (tableau s ! t))"
    using engine by (rule conjunct1)
  show "fst (move_to_tableau s (FromTableau i) to_pile_idx card_idx) = Inr True \<and>
    py_index (tableau s ! nat i) card_idx = Some k \<and>
    py_index (tableau s) to_pile_idx = Some t \<and>
    (t \<noteq> nat i \<or> tableau_inv (tableau s ! nat i)) \<longrightarrow>
      t \<noteq> nat i \<and>
      snd (move_to_tableau s (FromTableau i) to_pile_idx card_idx) =
        s\<lparr>tableau := (tableau s)
             [t := tableau s ! t @ drop k (tableau s ! nat i),
              nat i := (if k = 0 then []
                        else take (k - 1) (tableau s ! nat i) @
                             [(tableau s ! nat i ! (k - 1))\<lparr>face_up := True\<rparr>])],
          moves := moves s + 1\<rparr>"
    using engine by (rule conjunct2)
  show "selected_card g \<noteq> None \<and> a < length (tableau_piles g) \<and> b < length (tableau_piles g) \<and>
    a \<noteq> b \<and> cards (tableau_piles g ! a) \<noteq> [] \<and> \<not> check_win g \<longrightarrow>
      move_card restart g (TableauPile a) (TableauPile b) =
        (if can_accept_card (tableau_piles g ! b) (last (cards (tableau_piles g ! a)))
         then g\<lparr>tableau_piles := (tableau_piles g)
                  [a := (tableau_piles g ! a)\<lparr>cards := butlast (cards (tableau_piles g ! a))\<rparr>,
                   b := (tableau_piles g ! b)\<lparr>cards := cards (tableau_piles g ! b) @
                          [last (cards (tableau_piles g ! a))]\<rparr>],
                selected_card := None, selected_pile := None,
                moves_t := moves_t g + 1,
                move_history := move_history g @
                  [Move_entry (TableauPile a) (TableauPile b)
                     (last (cards (tableau_piles g ! a)))]\<rparr>
         else g\<lparr>selected_card := None, selected_pile := None\<rparr>)"
    using move_card_between_columns [of g a b restart] by blast
qed

theorem tableau_run_move_witness:
  "length (tableau run_of_three) = 7 \<and>
   fst (move_to_tableau run_of_three (FromTableau 0) 1 1) = Inr True \<and>
   py_index (tableau run_of_three ! 0) 1 = Some 1 \<and>
   py_index (tableau run_of_three) 1 = Some 1 \<and>
   snd (move_to_tableau run_of_three (FromTableau 0) 1 1) =
     \<lparr>stock = [], waste = [], foundations = [[], [], [], []],
      tableau = [[\<lparr>suit = CLUB, rank = THREE, face_up = True\<rparr>],
                 [\<lparr>suit = DIAMOND, rank = TEN, face_up = True\<rparr>,
                  \<lparr>suit = SPADE, rank = NINE, face_up = True\<rparr>,
                  \<lparr>suit = HEART, rank = EIGHT, face_up = True\<rparr>,
                  \<lparr>suit = CLUB, rank = SEVEN, face_up = True\<rparr>],
                 [], [], [], [], []],
      moves = 1\<rparr> \<and>
   selected_card run_of_three_t \<noteq> None \<and> \<not> check_win run_of_three_t \<and>
   move_card id run_of_three_t (TableauPile 1) (TableauPile 2) =
     run_of_three_t\<lparr>selected_card := None, selected_pile := None\<rparr>"
proof -
  have a: "length (tableau run_of_three) = 7" by (simp add: run_of_three_def)
  have b: "py_index (tableau run_of_three ! 0) 1 = Some 1"
    "py_index (tableau run_of_three) 1 = Some 1"
    "face_up (tableau run_of_three ! 0 ! 1)"
    "can_place_on_tableau (tableau run_of_three ! 0 ! 1) (tableau run_of_three ! 1)"
    by (simp_all add: run_of_three_def py_index_def can_place_on_tableau_def color_def)
  have c: "selected_card run_of_three_t \<noteq> None" "\<not> check_win run_of_three_t"
    "(1::nat) < length (tableau_piles run_of_three_t)"
    "(2::nat) < length (tableau_piles run_of_three_t)"
    "cards (tableau_piles run_of_three_t ! 1) \<noteq> []"
    "\<not> can_accept_card (tableau_piles run_of_three_t ! 2)
       (last (cards (tableau_piles run_of_three_t ! 1)))"
    by (simp_all add: run_of_three_t_def check_win_def can_accept_card_def is_empty_def)
  show ?thesis
    using tableau_run_move [OF a, of 0 1 1 1 1 run_of_three_t 1 2 id] a b c
    by (simp add: run_of_three_def)
qed

text \<open>
  In \<open>text.py\<close> a run cannot be moved: with the nine of spades selected in a column that
  holds the nine, the eight of hearts and the seven of clubs, and a target topped by the
  ten of diamonds, which accepts the nine, \<open>move_card\<close> tests the seven and moves nothing.
\<close>

theorem text_move_card_counterexample:
  "selected_card run_of_three_t = Some (cards (tableau_piles run_of_three_t ! 0) ! 0) \<and>
   can_accept_card (tableau_piles run_of_three_t ! 1)
     (cards (tableau_piles run_of_three_t ! 0) ! 0) \<and>
   tableau_piles (move_card id run_of_three_t (TableauPile 0) (TableauPile 1)) =
     tableau_piles run_of_three_t \<and>
   moves_t (move_card id run_of_three_t (TableauPile 0) (TableauPile 1)) =
     moves_t run_of_three_t"
  by (simp add: run_of_three_t_def move_card_def get_pile_def put_pile_def is_empty_def
      get_top_card_def can_accept_card_def get_color_def get_rank_value_def Let_def)


subsection \<open>Counting cards\<close>

lemma ids_simps [simp]:
  "ids [] = {#}" "ids (xs @ ys) = ids xs + ids ys" "ids (c # xs) = add_mset (ident c) (ids xs)"
  by (simp_all add: ids_def)

lemma ups_simps [simp]:
  "ups [] = {}" "ups (xs @ ys) = ups xs \<union> ups ys"
  "ups (c # xs) = (if face_up c then insert (ident c) (ups xs) else ups xs)"
  by (simp_all add: ups_def)

lemma ident_face [simp]: "ident (c\<lparr>face_up := b\<rparr>) = ident c"
  by (simp add: ident_def)

lemma ids_map_face [simp]: "ids (map (\<lambda>c. c\<lparr>face_up := b\<rparr>) xs) = ids xs"
  by (induction xs) simp_all

lemma ids_rev [simp]: "ids (rev xs) = ids xs"
  by (simp add: ids_def flip: rev_map)

lemma ids_take_drop: "ids (take k p) + ids (drop k p) = ids p"
  using ids_simps(2) [of "take k p" "drop k p"] by simp

lemma ups_take_drop: "ups (take k p) \<union> ups (drop k p) = ups p"
  using ups_simps(2) [of "take k p" "drop k p"] by simp

lemma ids_butlast: "p \<noteq> [] \<Longrightarrow> add_mset (ident (last p)) (ids (butlast p)) = ids p"
  using ids_simps(2) [of "butlast p" "[last p]"] by simp

lemma ups_butlast: "p \<noteq> [] \<Longrightarrow> ups p = ups (butlast p) \<union> ups [last p]"
  using ups_simps(2) [of "butlast p" "[last p]"] by simp

lemma ids_flip_top [simp]: "ids (flip_top p) = ids p"
  by (cases "p = []") (simp_all add: flip_top_eq ids_butlast)

lemma ups_flip_top: "ups p \<subseteq> ups (flip_top p)"
proof (cases "p = []")
  case True
  then show ?thesis by (simp add: flip_top_eq)
next
  case False
  then show ?thesis by (auto simp: flip_top_eq ups_butlast [OF False] split: if_splits)
qed

lemma ids_concat_update:
  "i < length xs \<Longrightarrow> ids (concat (xs[i := y])) + ids (xs ! i) = ids (concat xs) + ids y"
proof (induction xs arbitrary: i)
  case Nil
  then show ?case by simp
next
  case (Cons x xs)
  show ?case
  proof (cases i)
    case 0
    then show ?thesis by simp
  next
    case (Suc m)
    then have "m < length xs" using Cons.prems by simp
    from Cons.IH [OF this] have "ids (concat (xs[m := y])) + ids (xs ! m) = ids (concat xs) + ids y" .
    then have "ids x + (ids (concat (xs[m := y])) + ids (xs ! m)) = ids x + (ids (concat xs) + ids y)"
      by (rule arg_cong)
    then show ?thesis using Suc by (simp only: list_update_code concat.simps ids_simps nth_Cons_Suc add.assoc)
  qed
qed

lemma ups_concat_iff: "x \<in> ups (concat xs) \<longleftrightarrow> (\<exists>j<length xs. x \<in> ups (xs ! j))"
proof (induction xs)
  case Nil
  then show ?case by simp
next
  case (Cons y ys)
  show ?case
  proof
    assume "x \<in> ups (concat (y # ys))"
    then consider "x \<in> ups y" | "x \<in> ups (concat ys)" by auto
    then show "\<exists>j<length (y # ys). x \<in> ups ((y # ys) ! j)"
    proof cases
      case 1
      then have "x \<in> ups ((y # ys) ! 0)" by simp
      then show ?thesis by blast
    next
      case 2
      then obtain j where "j < length ys" "x \<in> ups (ys ! j)" using Cons by blast
      then have "Suc j < length (y # ys)" "x \<in> ups ((y # ys) ! Suc j)" by simp_all
      then show ?thesis by blast
    qed
  next
    assume "\<exists>j<length (y # ys). x \<in> ups ((y # ys) ! j)"
    then obtain j where j: "j < length (y # ys)" "x \<in> ups ((y # ys) ! j)" by blast
    show "x \<in> ups (concat (y # ys))"
    proof (cases j)
      case 0
      with j show ?thesis by simp
    next
      case (Suc m)
      with j have "m < length ys" "x \<in> ups (ys ! m)" by simp_all
      with Cons show ?thesis by auto
    qed
  qed
qed

lemma list_all_update:
  "list_all P xs \<Longrightarrow> P y \<Longrightarrow> list_all P (xs[i := y])"
proof -
  assume a: "list_all P xs" "P y"
  have "set (xs[i := y]) \<subseteq> insert y (set xs)" by (rule set_update_subset_insert)
  with a show ?thesis unfolding list_all_iff by blast
qed

lemma list_all_nth: "list_all P xs \<Longrightarrow> i < length xs \<Longrightarrow> P (xs ! i)"
  by (simp add: list_all_length)

lemma face_up_flip_top: "list_all face_up p \<Longrightarrow> list_all face_up (flip_top p)"
proof -
  assume a: "list_all face_up p"
  have "flip_top p = p"
  proof (cases "p = []")
    case True
    then show ?thesis by (simp add: flip_top_def)
  next
    case False
    then have "last p \<in> set p" by simp
    with a have "face_up (last p)" unfolding list_all_iff by blast
    then show ?thesis by (simp add: flip_top_def)
  qed
  with a show ?thesis by simp
qed

lemma face_up_butlast: "list_all face_up p \<Longrightarrow> list_all face_up (butlast p)"
  unfolding list_all_iff by (blast dest: in_set_butlastD)

subsection \<open>The foundation invariant\<close>

lemma foundation_inv_top:
  assumes "foundation_inv f" "f \<noteq> []"
  shows "RANK_VALUES (rank (last f)) = int (length f)" "suit (last f) = suit (hd f)"
proof -
  have m: "map (\<lambda>c. RANK_VALUES (rank c)) f = map (\<lambda>i. int i + 1) [0..<length f]"
    using assms(1) unfolding foundation_inv_def by blast
  have n: "[0..<length f] \<noteq> []" using assms(2) by simp
  have "RANK_VALUES (rank (last f)) = last (map (\<lambda>c. RANK_VALUES (rank c)) f)"
    by (rule last_map [OF assms(2), symmetric])
  also have "\<dots> = last (map (\<lambda>i. int i + 1) [0..<length f])" by (simp only: m)
  also have "\<dots> = int (last [0..<length f]) + 1" by (rule last_map [OF n])
  also have "last [0..<length f] = length f - 1" using assms(2) by (simp add: last_upt)
  finally show "RANK_VALUES (rank (last f)) = int (length f)"
    using assms(2) by (cases f) simp_all
  have "last f \<in> set f" using assms(2) by simp
  moreover have "\<forall>c\<in>set f. suit c = suit (hd f)"
    using assms(1) unfolding foundation_inv_def list_all_iff by blast
  ultimately show "suit (last f) = suit (hd f)" by blast
qed


lemma foundation_inv_append:
  assumes inv: "foundation_inv f"
    and acc: "if f = [] then rank c = ACE
              else suit c = suit (last f) \<and> RANK_VALUES (rank c) = RANK_VALUES (rank (last f)) + 1"
  shows "foundation_inv (f @ [c])"
proof (cases "f = []")
  case True
  then have "rank c = ACE" using acc by simp
  then show ?thesis using True unfolding foundation_inv_def by simp
next
  case False
  have m: "map (\<lambda>c. RANK_VALUES (rank c)) f = map (\<lambda>i. int i + 1) [0..<length f]"
    using inv unfolding foundation_inv_def by blast
  have su: "\<forall>d\<in>set f. suit d = suit (hd f)"
    using inv unfolding foundation_inv_def list_all_iff by blast
  have rv: "RANK_VALUES (rank c) = int (length f) + 1"
    using acc False foundation_inv_top(1) [OF inv False] by simp
  have sc: "suit c = suit (hd f)"
    using acc False foundation_inv_top(2) [OF inv False] by simp
  have "map (\<lambda>c. RANK_VALUES (rank c)) (f @ [c]) =
      map (\<lambda>i. int i + 1) [0..<length f] @ [int (length f) + 1]"
    by (simp only: map_append m list.map rv)
  also have "\<dots> = map (\<lambda>i. int i + 1) [0..<length (f @ [c])]" by simp
  finally have one: "map (\<lambda>c. RANK_VALUES (rank c)) (f @ [c]) =
      map (\<lambda>i. int i + 1) [0..<length (f @ [c])]" .
  have "hd (f @ [c]) = hd f" using False by simp
  then have two: "list_all (\<lambda>d. suit d = suit (hd (f @ [c]))) (f @ [c])"
    using su sc unfolding list_all_iff by auto
  show ?thesis unfolding foundation_inv_def using one two by blast
qed

subsection \<open>What a successful move does\<close>

lemma foundation_move_from_waste:
  "move_to_foundation s FromWaste fi =
     (if waste s = [] then (Inr False, s)
      else
        (case py_index (foundations s) fi of
           None \<Rightarrow> (Inl IndexError, s)
         | Some f \<Rightarrow>
             if (if foundations s ! f = [] then rank (last (waste s)) = ACE
                 else suit (last (waste s)) = suit (last (foundations s ! f)) \<and>
                      RANK_VALUES (rank (last (waste s))) =
                        RANK_VALUES (rank (last (foundations s ! f))) + 1)
             then (Inr True,
                   s\<lparr>waste := butlast (waste s),
                     foundations := (foundations s)[f := foundations s ! f @ [last (waste s)]],
                     moves := moves s + 1\<rparr>)
             else (Inr False, s)))"
  by (simp add: move_to_foundation_def can_move_to_foundation_def place_on_foundation_def
      Let_def split: option.split)

lemma foundation_move_from_column:
  assumes i: "0 \<le> i" "i < 7" and j: "py_index (tableau s) i = Some j"
  shows "move_to_foundation s (FromTableau i) fi =
     (if tableau s ! j = [] \<or> \<not> face_up (last (tableau s ! j)) then (Inr False, s)
      else
        (case py_index (foundations s) fi of
           None \<Rightarrow> (Inl IndexError, s)
         | Some f \<Rightarrow>
             if (if foundations s ! f = [] then rank (last (tableau s ! j)) = ACE
                 else suit (last (tableau s ! j)) = suit (last (foundations s ! f)) \<and>
                      RANK_VALUES (rank (last (tableau s ! j))) =
                        RANK_VALUES (rank (last (foundations s ! f))) + 1)
             then (Inr True,
                   s\<lparr>tableau := (tableau s)[j := flip_top (butlast (tableau s ! j))],
                     foundations :=
                       (foundations s)[f := foundations s ! f @ [last (tableau s ! j)]],
                     moves := moves s + 1\<rparr>)
             else (Inr False, s)))"
proof -
  have jl: "j < length (tableau s)" by (rule py_index_lt [OF j])
  have j': "py_index ((tableau s)[j := butlast (tableau s ! j)]) i = Some j"
    using j by (simp add: py_index_def)
  show ?thesis
    using i j j' jl
    by (simp add: move_to_foundation_def can_move_to_foundation_def place_on_foundation_def
        Let_def split: option.split)
qed


subsection \<open>The invariant is kept by every operation\<close>

lemma ids_all_cards:
  "ids (all_cards s) =
     ids (stock s) + ids (waste s) + ids (concat (foundations s)) + ids (concat (tableau s))"
  by (simp add: all_cards_def ac_simps)

lemma ups_all_cards:
  "ups (all_cards s) =
     ups (stock s) \<union> ups (waste s) \<union> ups (concat (foundations s)) \<union> ups (concat (tableau s))"
  by (auto simp: all_cards_def)

lemma state_invD:
  assumes "state_inv s"
  shows "length (tableau s) = 7" "length (foundations s) = 4"
    "ids (stock s) + ids (waste s) + ids (concat (foundations s)) + ids (concat (tableau s)) =
       ids new_deck"
    "list_all tableau_inv (tableau s)" "list_all face_up (waste s)"
    "list_all foundation_inv (foundations s)"
  using assms unfolding state_inv_def ids_all_cards by blast+

lemma state_invI:
  assumes "length (tableau s) = 7" "length (foundations s) = 4"
    "ids (stock s) + ids (waste s) + ids (concat (foundations s)) + ids (concat (tableau s)) =
       ids new_deck"
    "list_all tableau_inv (tableau s)" "list_all face_up (waste s)"
    "list_all foundation_inv (foundations s)"
  shows "state_inv s"
  using assms unfolding state_inv_def ids_all_cards by blast

lemma ups_concat_update_mono:
  assumes i: "i < length xs" and sub: "ups (xs ! i) \<subseteq> ups y"
  shows "ups (concat xs) \<subseteq> ups (concat (xs[i := y]))"
proof
  fix x assume "x \<in> ups (concat xs)"
  then obtain j where j: "j < length xs" "x \<in> ups (xs ! j)" by (auto simp: ups_concat_iff)
  have "x \<in> ups ((xs[i := y]) ! j)"
  proof (cases "j = i")
    case True
    with j sub i show ?thesis by auto
  next
    case False
    with j show ?thesis by simp
  qed
  with j(1) show "x \<in> ups (concat (xs[i := y]))" by (auto simp: ups_concat_iff)
qed

lemma inv_draw: "state_inv s \<Longrightarrow> state_inv (draw_from_stock s)"
proof -
  assume inv: "state_inv s"
  note d = state_invD [OF inv]
  show ?thesis
  proof (cases "stock s = []")
    case True
    then have eq: "draw_from_stock s =
        s\<lparr>waste := [], stock := map (\<lambda>c. c\<lparr>face_up := False\<rparr>) (rev (waste s))\<rparr>"
      by (simp add: draw_from_stock_def recycle_eq)
    show ?thesis
      unfolding eq using d True by (intro state_invI) (simp_all add: ac_simps)
  next
    case False
    then have eq: "draw_from_stock s =
        s\<lparr>stock := butlast (stock s),
          waste := waste s @ [(last (stock s))\<lparr>face_up := True\<rparr>],
          moves := moves s + 1\<rparr>"
      by (simp add: draw_from_stock_def Let_def)
    have e: "ids (stock s) = add_mset (ident (last (stock s))) (ids (butlast (stock s)))"
      using ids_butlast [OF False] by simp
    note d3 = d(3) [unfolded e]
    show ?thesis
      unfolding eq using d(1,2,4,5,6) d3 by (intro state_invI) (simp_all add: ac_simps)
  qed
qed

lemma ups_draw:
  "stock s \<noteq> [] \<Longrightarrow> ups (all_cards s) \<subseteq> ups (all_cards (draw_from_stock s))"
proof -
  assume ne: "stock s \<noteq> []"
  then have eq: "draw_from_stock s =
      s\<lparr>stock := butlast (stock s),
        waste := waste s @ [(last (stock s))\<lparr>face_up := True\<rparr>],
        moves := moves s + 1\<rparr>"
    by (simp add: draw_from_stock_def Let_def)
  show ?thesis
    unfolding eq ups_all_cards using ups_butlast [OF ne] by (auto split: if_splits)
qed

lemma inv_flip: "state_inv s \<Longrightarrow> state_inv (apply_op s (Flip i))"
proof -
  assume inv: "state_inv s"
  note d = state_invD [OF inv]
  show ?thesis
  proof (cases "py_index (tableau s) i")
    case None
    then show ?thesis using inv by (simp add: select_tableau_card_flip_def)
  next
    case (Some j)
    have jl: "j < length (tableau s)" by (rule py_index_lt [OF Some])
    have eq: "apply_op s (Flip i) = s\<lparr>tableau := (tableau s)[j := flip_top (tableau s ! j)]\<rparr>"
      using Some by (simp add: select_tableau_card_flip_def)
    have c: "ids (concat ((tableau s)[j := flip_top (tableau s ! j)])) = ids (concat (tableau s))"
      using ids_concat_update [OF jl, of "flip_top (tableau s ! j)"] by simp
    have t: "list_all tableau_inv ((tableau s)[j := flip_top (tableau s ! j)])"
      by (rule list_all_update [OF d(4) tableau_inv_flip_top [OF list_all_nth [OF d(4) jl]]])
    show ?thesis
      unfolding eq using d c t by (intro state_invI) simp_all
  qed
qed

lemma ups_flip: "ups (all_cards s) \<subseteq> ups (all_cards (apply_op s (Flip i)))"
proof (cases "py_index (tableau s) i")
  case None
  then show ?thesis by (simp add: select_tableau_card_flip_def)
next
  case (Some j)
  have jl: "j < length (tableau s)" by (rule py_index_lt [OF Some])
  have eq: "apply_op s (Flip i) = s\<lparr>tableau := (tableau s)[j := flip_top (tableau s ! j)]\<rparr>"
    using Some by (simp add: select_tableau_card_flip_def)
  show ?thesis
    unfolding eq ups_all_cards
    using ups_concat_update_mono [OF jl ups_flip_top [of "tableau s ! j"]] by auto
qed

lemma ids_concat_append_at:
  assumes "i < length xs"
  shows "ids (concat (xs[i := xs ! i @ ys])) = ids (concat xs) + ids ys"
proof -
  have "ids (concat (xs[i := xs ! i @ ys])) + ids (xs ! i) =
      (ids (concat xs) + ids ys) + ids (xs ! i)"
    using ids_concat_update [OF assms, of "xs ! i @ ys"] by (simp add: ac_simps)
  then show ?thesis by (simp only: add_right_cancel)
qed

lemma ids_concat_replace:
  assumes i: "i < length xs" and split: "ids y + ids z = ids (xs ! i)"
  shows "ids (concat (xs[i := y])) + ids z = ids (concat xs)"
proof -
  have "ids (concat (xs[i := y])) + (ids y + ids z) = ids (concat xs) + ids y"
    using ids_concat_update [OF i, of y] by (simp only: split)
  then have "(ids (concat (xs[i := y])) + ids z) + ids y = ids (concat xs) + ids y"
    by (simp only: ac_simps)
  then show ?thesis by (simp only: add_right_cancel)
qed

lemma ups_concat_nth: "j < length xs \<Longrightarrow> ups (xs ! j) \<subseteq> ups (concat xs)"
  by (auto simp: ups_concat_iff)

lemma inv_waste_to_tableau:
  assumes inv: "state_inv s"
  shows "state_inv (snd (move_to_tableau s FromWaste to ci)) \<and>
    ups (all_cards s) \<subseteq> ups (all_cards (snd (move_to_tableau s FromWaste to ci)))"
proof (cases "fst (move_to_tableau s FromWaste to ci) = Inr True")
  case False
  then have "snd (move_to_tableau s FromWaste to ci) = s"
    using tableau_move_cases [of s FromWaste to ci] by blast
  then show ?thesis using inv by simp
next
  case True
  note d = state_invD [OF inv]
  let ?w = "waste s" and ?tab = "tableau s"
  from True have ne: "?w \<noteq> []"
    by (auto simp: move_to_tableau_def split: if_splits)
  from True ne obtain t where t: "py_index ?tab to = Some t"
    by (auto simp: move_to_tableau_def split: option.splits)
  from True ne t have place: "can_place_on_tableau (last ?w) (?tab ! t)"
    by (auto simp: move_to_tableau_def split: if_splits)
  have tl: "t < length ?tab" by (rule py_index_lt [OF t])
  let ?tab' = "?tab[t := ?tab ! t @ [last ?w]]"
  have eq: "snd (move_to_tableau s FromWaste to ci) =
      s\<lparr>tableau := ?tab', waste := flip_top (butlast ?w), moves := moves s + 1\<rparr>"
    using ne t place by (simp add: move_to_tableau_def)
  have up: "face_up (last ?w)"
    using d(5) ne unfolding list_all_iff by simp
  have ti: "tableau_inv (?tab ! t @ [last ?w])"
    using up place by (intro tableau_inv_append_run list_all_nth [OF d(4) tl]) simp_all
  have c: "ids (concat ?tab') = ids (concat ?tab) + {#ident (last ?w)#}"
    using ids_concat_append_at [OF tl, of "[last ?w]"] by simp
  have e: "ids ?w = add_mset (ident (last ?w)) (ids (butlast ?w))"
    using ids_butlast [OF ne] by simp
  note d3 = d(3) [unfolded e]
  have one: "state_inv (s\<lparr>tableau := ?tab', waste := flip_top (butlast ?w),
      moves := moves s + 1\<rparr>)"
  proof (rule state_invI)
    show "list_all tableau_inv
        (tableau (s\<lparr>tableau := ?tab', waste := flip_top (butlast ?w), moves := moves s + 1\<rparr>))"
      using list_all_update [OF d(4) ti] by simp
    show "list_all face_up
        (waste (s\<lparr>tableau := ?tab', waste := flip_top (butlast ?w), moves := moves s + 1\<rparr>))"
      using face_up_flip_top [OF face_up_butlast [OF d(5)]] by simp
  qed (use d(1,2,6) d3 c in \<open>simp_all add: ac_simps\<close>)
  have "ups [last ?w] \<subseteq> ups (?tab' ! t)" using tl by auto
  also have "\<dots> \<subseteq> ups (concat ?tab')" using tl by (intro ups_concat_nth) simp
  finally have a: "ups [last ?w] \<subseteq> ups (concat ?tab')" .
  have b: "ups (concat ?tab) \<subseteq> ups (concat ?tab')"
    using tl by (intro ups_concat_update_mono) auto
  have "ups ?w = ups (butlast ?w) \<union> ups [last ?w]" by (rule ups_butlast [OF ne])
  with a b ups_flip_top [of "butlast ?w"]
  have two: "ups (all_cards s) \<subseteq> ups (all_cards (s\<lparr>tableau := ?tab',
      waste := flip_top (butlast ?w), moves := moves s + 1\<rparr>))"
    unfolding ups_all_cards by auto
  show ?thesis unfolding eq using one two by blast
qed

lemma inv_column_to_tableau:
  assumes inv: "state_inv s"
  shows "state_inv (snd (move_to_tableau s (FromTableau i) to ci)) \<and>
    ups (all_cards s) \<subseteq> ups (all_cards (snd (move_to_tableau s (FromTableau i) to ci)))"
proof (cases "fst (move_to_tableau s (FromTableau i) to ci) = Inr True")
  case False
  then have "snd (move_to_tableau s (FromTableau i) to ci) = s"
    using tableau_move_cases [of s "FromTableau i" to ci] by blast
  then show ?thesis using inv by simp
next
  case True
  note d = state_invD [OF inv]
  let ?tab = "tableau s"
  have rng: "0 \<le> i \<and> i < 7"
    using True by (auto simp: move_to_tableau_def split: if_splits)
  let ?f = "nat i"
  have f: "py_index ?tab i = Some ?f" using rng d(1) by (simp add: py_index_def)
  have fl: "?f < length ?tab" by (rule py_index_lt [OF f])
  let ?p = "?tab ! ?f"
  note eq = move_from_column [OF _ _ f, of to ci]
  from True rng obtain k where k: "py_index ?p ci = Some k"
    by (auto simp: eq split: if_splits option.splits)
  have kl: "k < length ?p" by (rule py_index_lt [OF k])
  have lt: "ci < int (length ?p)"
    using k by (auto simp: py_index_def Let_def split: if_splits)
  from True rng k lt have up: "face_up (?p ! k)"
    by (auto simp: eq split: if_splits)
  from True rng k lt up obtain t where t: "py_index ?tab to = Some t"
    by (auto simp: eq split: option.splits)
  from True rng k lt up t have place: "can_place_on_tableau (?p ! k) (?tab ! t)"
    by (auto simp: eq split: if_splits)
  have tl: "t < length ?tab" by (rule py_index_lt [OF t])
  have pinv: "tableau_inv ?p" by (rule list_all_nth [OF d(4) fl])
  have ne: "t \<noteq> ?f"
    using own_run_not_placeable [OF pinv kl up] place by auto
  let ?run = "drop k ?p"
  let ?tab1 = "?tab[t := ?tab ! t @ ?run]"
  let ?tab' = "?tab1[?f := flip_top (take k ?p)]"
  have src: "?tab1 ! ?f = ?p" using ne by simp
  have eq': "snd (move_to_tableau s (FromTableau i) to ci) =
      s\<lparr>tableau := ?tab', moves := moves s + 1\<rparr>"
    using rng k t up place lt by (simp add: eq src slice_from_py_index [OF k])
  have run: "\<forall>c\<in>set ?run. face_up c" "run_ok ?run"
    by (rule lifted_run [OF pinv kl up])+
  have rne: "?run \<noteq> []" using kl by simp
  have hd: "hd ?run = ?p ! k" using kl by (simp add: hd_drop_conv_nth)
  have ti: "tableau_inv (?tab ! t @ ?run)"
    using place
    by (intro tableau_inv_append_run list_all_nth [OF d(4) tl] run rne) (simp add: hd)
  have si: "tableau_inv (flip_top (take k ?p))"
    by (rule tableau_inv_flip_top [OF tableau_inv_take [OF pinv]])
  have inv': "list_all tableau_inv ?tab'"
    by (rule list_all_update [OF list_all_update [OF d(4) ti] si])
  have c1: "ids (concat ?tab1) = ids (concat ?tab) + ids ?run"
    by (rule ids_concat_append_at [OF tl])
  have fl1: "?f < length ?tab1" using fl by simp
  have "ids (concat ?tab') + ids ?run = ids (concat ?tab1)"
    using ids_take_drop [of k ?p] by (intro ids_concat_replace [OF fl1]) (simp add: src)
  then have c: "ids (concat ?tab') = ids (concat ?tab)"
    by (simp only: c1 add_right_cancel)
  have one: "state_inv (s\<lparr>tableau := ?tab', moves := moves s + 1\<rparr>)"
    using d c inv' by (intro state_invI) simp_all
  have nth_t: "?tab' ! t = ?tab ! t @ ?run" using ne tl by simp
  have nth_f: "?tab' ! ?f = flip_top (take k ?p)" using fl by simp
  have len': "length ?tab' = length ?tab" by simp
  have b: "ups (concat ?tab) \<subseteq> ups (concat ?tab')"
  proof
    fix x assume "x \<in> ups (concat ?tab)"
    then obtain j where j: "j < length ?tab" "x \<in> ups (?tab ! j)"
      by (auto simp: ups_concat_iff)
    consider "j = ?f" | "j = t" | "j \<noteq> ?f" "j \<noteq> t" by blast
    then have "\<exists>m<length ?tab'. x \<in> ups (?tab' ! m)"
    proof cases
      case 1
      with j have "x \<in> ups (take k ?p) \<union> ups ?run" by (simp add: ups_take_drop)
      then show ?thesis
      proof
        assume "x \<in> ups (take k ?p)"
        then have "x \<in> ups (?tab' ! ?f)"
          using ups_flip_top [of "take k ?p"] unfolding nth_f by blast
        then show ?thesis using fl len' by metis
      next
        assume "x \<in> ups ?run"
        then have "x \<in> ups (?tab' ! t)" unfolding nth_t by simp
        then show ?thesis using tl len' by metis
      qed
    next
      case 2
      with j have "x \<in> ups (?tab' ! t)" unfolding nth_t by simp
      then show ?thesis using tl len' by metis
    next
      case 3
      then have "?tab' ! j = ?tab ! j" by simp
      with j show ?thesis using len' by metis
    qed
    then show "x \<in> ups (concat ?tab')" by (simp only: ups_concat_iff)
  qed
  have two: "ups (all_cards s) \<subseteq> ups (all_cards (s\<lparr>tableau := ?tab', moves := moves s + 1\<rparr>))"
    unfolding ups_all_cards using b by auto
  show ?thesis unfolding eq' using one two by blast
qed

lemma inv_waste_to_foundation:
  assumes inv: "state_inv s"
  shows "state_inv (snd (move_to_foundation s FromWaste fi)) \<and>
    ups (all_cards s) \<subseteq> ups (all_cards (snd (move_to_foundation s FromWaste fi)))"
proof (cases "fst (move_to_foundation s FromWaste fi) = Inr True")
  case False
  then have "snd (move_to_foundation s FromWaste fi) = s"
    using foundation_move_cases [of s FromWaste fi] by blast
  then show ?thesis using inv by simp
next
  case True
  note d = state_invD [OF inv]
  note eq = foundation_move_from_waste [of s fi]
  let ?w = "waste s" and ?fs = "foundations s"
  from True have ne: "?w \<noteq> []" by (auto simp: eq split: if_splits)
  from True ne obtain f where f: "py_index ?fs fi = Some f"
    by (auto simp: eq split: option.splits)
  from True ne f have acc: "if ?fs ! f = [] then rank (last ?w) = ACE
      else suit (last ?w) = suit (last (?fs ! f)) \<and>
           RANK_VALUES (rank (last ?w)) = RANK_VALUES (rank (last (?fs ! f))) + 1"
    by (auto simp: eq split: if_splits)
  have fl: "f < length ?fs" by (rule py_index_lt [OF f])
  let ?fs' = "?fs[f := ?fs ! f @ [last ?w]]"
  have eq': "snd (move_to_foundation s FromWaste fi) =
      s\<lparr>waste := butlast ?w, foundations := ?fs', moves := moves s + 1\<rparr>"
    using ne f acc by (simp add: eq)
  have fi': "foundation_inv (?fs ! f @ [last ?w])"
    by (rule foundation_inv_append [OF list_all_nth [OF d(6) fl] acc])
  have c: "ids (concat ?fs') = ids (concat ?fs) + {#ident (last ?w)#}"
    using ids_concat_append_at [OF fl, of "[last ?w]"] by simp
  have e: "ids ?w = add_mset (ident (last ?w)) (ids (butlast ?w))"
    using ids_butlast [OF ne] by simp
  note d3 = d(3) [unfolded e]
  have one: "state_inv (s\<lparr>waste := butlast ?w, foundations := ?fs', moves := moves s + 1\<rparr>)"
  proof (rule state_invI)
    show "list_all foundation_inv
        (foundations (s\<lparr>waste := butlast ?w, foundations := ?fs', moves := moves s + 1\<rparr>))"
      using list_all_update [OF d(6) fi'] by simp
    show "list_all face_up
        (waste (s\<lparr>waste := butlast ?w, foundations := ?fs', moves := moves s + 1\<rparr>))"
      using face_up_butlast [OF d(5)] by simp
  qed (use d(1,2,4) d3 c in \<open>simp_all add: ac_simps\<close>)
  have "ups [last ?w] \<subseteq> ups (?fs' ! f)" using fl by auto
  also have "\<dots> \<subseteq> ups (concat ?fs')" using fl by (intro ups_concat_nth) simp
  finally have a: "ups [last ?w] \<subseteq> ups (concat ?fs')" .
  have b: "ups (concat ?fs) \<subseteq> ups (concat ?fs')"
    using fl by (intro ups_concat_update_mono) auto
  have "ups ?w = ups (butlast ?w) \<union> ups [last ?w]" by (rule ups_butlast [OF ne])
  with a b
  have two: "ups (all_cards s) \<subseteq> ups (all_cards (s\<lparr>waste := butlast ?w,
      foundations := ?fs', moves := moves s + 1\<rparr>))"
    unfolding ups_all_cards by auto
  show ?thesis unfolding eq' using one two by blast
qed

lemma inv_column_to_foundation:
  assumes inv: "state_inv s"
  shows "state_inv (snd (move_to_foundation s (FromTableau i) fi)) \<and>
    ups (all_cards s) \<subseteq> ups (all_cards (snd (move_to_foundation s (FromTableau i) fi)))"
proof (cases "fst (move_to_foundation s (FromTableau i) fi) = Inr True")
  case False
  then have "snd (move_to_foundation s (FromTableau i) fi) = s"
    using foundation_move_cases [of s "FromTableau i" fi] by blast
  then show ?thesis using inv by simp
next
  case True
  note d = state_invD [OF inv]
  let ?tab = "tableau s" and ?fs = "foundations s"
  have rng: "0 \<le> i \<and> i < 7"
    using True by (auto simp: move_to_foundation_def split: if_splits)
  let ?j = "nat i"
  have j: "py_index ?tab i = Some ?j" using rng d(1) by (simp add: py_index_def)
  have jl: "?j < length ?tab" by (rule py_index_lt [OF j])
  let ?p = "?tab ! ?j"
  note eq = foundation_move_from_column [OF _ _ j, of fi]
  from True rng have ne: "?p \<noteq> []" and up: "face_up (last ?p)"
    by (auto simp: eq split: if_splits)
  from True rng ne up obtain f where f: "py_index ?fs fi = Some f"
    by (auto simp: eq split: option.splits)
  from True rng ne up f have acc: "if ?fs ! f = [] then rank (last ?p) = ACE
      else suit (last ?p) = suit (last (?fs ! f)) \<and>
           RANK_VALUES (rank (last ?p)) = RANK_VALUES (rank (last (?fs ! f))) + 1"
    by (auto simp: eq split: if_splits)
  have fl: "f < length ?fs" by (rule py_index_lt [OF f])
  let ?fs' = "?fs[f := ?fs ! f @ [last ?p]]"
  let ?tab' = "?tab[?j := flip_top (butlast ?p)]"
  have eq': "snd (move_to_foundation s (FromTableau i) fi) =
      s\<lparr>tableau := ?tab', foundations := ?fs', moves := moves s + 1\<rparr>"
    using rng ne up f acc by (simp add: eq)
  have fi': "foundation_inv (?fs ! f @ [last ?p])"
    by (rule foundation_inv_append [OF list_all_nth [OF d(6) fl] acc])
  have pinv: "tableau_inv ?p" by (rule list_all_nth [OF d(4) jl])
  have "tableau_inv (take (length ?p - 1) ?p)" by (rule tableau_inv_take [OF pinv])
  then have "tableau_inv (butlast ?p)" by (simp only: butlast_conv_take)
  then have ti: "tableau_inv (flip_top (butlast ?p))" by (rule tableau_inv_flip_top)
  have cf: "ids (concat ?fs') = ids (concat ?fs) + {#ident (last ?p)#}"
    using ids_concat_append_at [OF fl, of "[last ?p]"] by simp
  have "ids (flip_top (butlast ?p)) + ids [last ?p] = ids ?p"
    using ids_butlast [OF ne] by simp
  from ids_concat_replace [OF jl this]
  have ct: "ids (concat ?tab') + {#ident (last ?p)#} = ids (concat ?tab)" by simp
  have d3: "ids (stock s) + ids (waste s) + ids (concat ?fs) +
      (ids (concat ?tab') + {#ident (last ?p)#}) = ids new_deck"
    using d(3) by (simp only: ct)
  have one: "state_inv (s\<lparr>tableau := ?tab', foundations := ?fs', moves := moves s + 1\<rparr>)"
  proof (rule state_invI)
    show "list_all foundation_inv
        (foundations (s\<lparr>tableau := ?tab', foundations := ?fs', moves := moves s + 1\<rparr>))"
      using list_all_update [OF d(6) fi'] by simp
    show "list_all tableau_inv
        (tableau (s\<lparr>tableau := ?tab', foundations := ?fs', moves := moves s + 1\<rparr>))"
      using list_all_update [OF d(4) ti] by simp
  qed (use d(1,2,5) d3 cf in \<open>simp_all add: ac_simps\<close>)
  have "ups [last ?p] \<subseteq> ups (?fs' ! f)" using fl by auto
  also have "\<dots> \<subseteq> ups (concat ?fs')" using fl by (intro ups_concat_nth) simp
  finally have a: "ups [last ?p] \<subseteq> ups (concat ?fs')" .
  have b: "ups (concat ?fs) \<subseteq> ups (concat ?fs')"
    using fl by (intro ups_concat_update_mono) auto
  have len': "length ?tab' = length ?tab" by simp
  have nth_j: "?tab' ! ?j = flip_top (butlast ?p)" using jl by simp
  have c: "ups (concat ?tab) \<subseteq> ups (concat ?tab') \<union> ups [last ?p]"
  proof
    fix x assume "x \<in> ups (concat ?tab)"
    then obtain m where m: "m < length ?tab" "x \<in> ups (?tab ! m)"
      by (auto simp: ups_concat_iff)
    show "x \<in> ups (concat ?tab') \<union> ups [last ?p]"
    proof (cases "m = ?j")
      case True
      with m have "x \<in> ups (butlast ?p) \<union> ups [last ?p]"
        using ups_butlast [OF ne] by simp
      then show ?thesis
      proof
        assume "x \<in> ups (butlast ?p)"
        then have "x \<in> ups (?tab' ! ?j)"
          using ups_flip_top [of "butlast ?p"] unfolding nth_j by blast
        then have "x \<in> ups (concat ?tab')"
          using ups_concat_nth [of ?j ?tab'] jl len' by auto
        then show ?thesis by simp
      next
        assume "x \<in> ups [last ?p]"
        then show ?thesis by simp
      qed
    next
      case False
      then have "?tab' ! m = ?tab ! m" by simp
      with m have "x \<in> ups (concat ?tab')"
        using ups_concat_nth [of m ?tab'] len' by auto
      then show ?thesis by simp
    qed
  qed
  have two: "ups (all_cards s) \<subseteq> ups (all_cards (s\<lparr>tableau := ?tab',
      foundations := ?fs', moves := moves s + 1\<rparr>))"
    unfolding ups_all_cards using a b c by auto
  show ?thesis unfolding eq' using one two by blast
qed

subsection \<open>The deal\<close>

lemma deal_column_spec:
  assumes "k \<le> length deck"
  shows "\<exists>new. deal_column k deck pile = Inr (take (length deck - k) deck, pile @ new) \<and>
      ids new = ids (drop (length deck - k) deck) \<and>
      (0 < k \<longrightarrow> (\<forall>c\<in>set deck. \<not> face_up c) \<longrightarrow>
         (\<exists>ds c. new = ds @ [c] \<and> (\<forall>d\<in>set ds. \<not> face_up d) \<and> face_up c))"
  using assms
proof (induction k arbitrary: deck pile)
  case 0
  then show ?case by simp
next
  case (Suc k)
  then have ne: "deck \<noteq> []" by auto
  let ?c = "last deck"
  let ?c' = "if k = 0 then ?c\<lparr>face_up := True\<rparr> else ?c"
  let ?rest = "butlast deck"
  have len: "length ?rest = length deck - 1" by simp
  have kl: "k \<le> length ?rest" using Suc.prems by simp
  from Suc.IH [OF kl, of "pile @ [?c']"] obtain new where
    new: "deal_column k ?rest (pile @ [?c']) =
        Inr (take (length ?rest - k) ?rest, (pile @ [?c']) @ new)"
      "ids new = ids (drop (length ?rest - k) ?rest)"
      "0 < k \<longrightarrow> (\<forall>c\<in>set ?rest. \<not> face_up c) \<longrightarrow>
         (\<exists>ds c. new = ds @ [c] \<and> (\<forall>d\<in>set ds. \<not> face_up d) \<and> face_up c)"
    by blast
  let ?m = "length deck - Suc k"
  have m: "length ?rest - k = ?m" by simp
  have tk: "take ?m ?rest = take ?m deck"
    using Suc.prems by (simp add: butlast_conv_take)
  have dr: "drop ?m deck = drop ?m ?rest @ [?c]"
  proof -
    have "drop ?m (?rest @ [?c]) = drop ?m ?rest @ [?c]" using Suc.prems by simp
    then show ?thesis using ne by simp
  qed
  have eq: "deal_column (Suc k) deck pile = Inr (take ?m deck, pile @ (?c' # new))"
    using ne new(1) by (simp add: Let_def m tk)
  have idn: "ids (?c' # new) = ids (drop ?m deck)"
    by (simp add: new(2) m dr)
  have shape: "\<exists>ds c. ?c' # new = ds @ [c] \<and> (\<forall>d\<in>set ds. \<not> face_up d) \<and> face_up c"
    if down: "\<forall>c\<in>set deck. \<not> face_up c"
  proof (cases "k = 0")
    case True
    then have "new = []" using new(2) by (simp add: ids_def)
    then have "?c' # new = [] @ [?c\<lparr>face_up := True\<rparr>]" using True by simp
    then show ?thesis by (intro exI [of _ "[]"] exI [of _ "?c\<lparr>face_up := True\<rparr>"]) simp
  next
    case False
    have "\<forall>c\<in>set ?rest. \<not> face_up c" using down by (auto dest: in_set_butlastD)
    with new(3) False obtain ds c where n: "new = ds @ [c]" "\<forall>d\<in>set ds. \<not> face_up d" "face_up c"
      by auto
    have "\<not> face_up ?c" using down ne by simp
    with n False have "?c' # new = (?c # ds) @ [c] \<and> (\<forall>d\<in>set (?c # ds). \<not> face_up d) \<and> face_up c"
      by simp
    then show ?thesis by blast
  qed
  show ?case using eq idn shape by blast
qed

lemma deal_tableau_spec:
  assumes "sum_list (map Suc is) \<le> length deck" and "distinct is"
    and "\<forall>i\<in>set is. i < length tab \<and> tab ! i = []"
    and "\<forall>c\<in>set deck. \<not> face_up c" and "list_all tableau_inv tab"
  shows "\<exists>tab'. deal_tableau is deck tab =
        Inr (take (length deck - sum_list (map Suc is)) deck, tab') \<and>
      length tab' = length tab \<and>
      ids (concat tab') + ids (take (length deck - sum_list (map Suc is)) deck) =
        ids (concat tab) + ids deck \<and>
      list_all tableau_inv tab'"
  using assms
proof (induction "is" arbitrary: deck tab)
  case Nil
  then show ?case by simp
next
  case (Cons i "is")
  let ?S = "sum_list (map Suc is)"
  let ?n = "length deck - Suc i"
  let ?deck1 = "take ?n deck"
  have il: "i < length tab" and empty: "tab ! i = []" using Cons.prems(3) by simp_all
  have k: "Suc i \<le> length deck" using Cons.prems(1) by simp
  from deal_column_spec [OF k, of "tab ! i"] Cons.prems(4) obtain new where
    new: "deal_column (Suc i) deck (tab ! i) = Inr (?deck1, new)"
      "ids new = ids (drop ?n deck)"
      "\<exists>ds c. new = ds @ [c] \<and> (\<forall>d\<in>set ds. \<not> face_up d) \<and> face_up c"
    unfolding empty by auto
  let ?tab1 = "tab[i := new]"
  have ninv: "tableau_inv new"
  proof -
    from new(3) obtain ds c where "new = ds @ [c]" "\<forall>d\<in>set ds. \<not> face_up d" "face_up c"
      by blast
    then show ?thesis using tableau_invI [of ds "[c]"] by simp
  qed
  have p1: "?S \<le> length ?deck1" using Cons.prems(1) by simp
  have p2: "distinct is" using Cons.prems(2) by simp
  have p3: "\<forall>j\<in>set is. j < length ?tab1 \<and> ?tab1 ! j = []"
  proof
    fix j assume j: "j \<in> set is"
    then have "j \<noteq> i" using Cons.prems(2) by auto
    then have "?tab1 ! j = tab ! j" by simp
    then show "j < length ?tab1 \<and> ?tab1 ! j = []" using Cons.prems(3) j by simp
  qed
  have p4: "\<forall>c\<in>set ?deck1. \<not> face_up c"
    using Cons.prems(4) by (auto dest: in_set_takeD)
  have p5: "list_all tableau_inv ?tab1"
    by (rule list_all_update [OF Cons.prems(5) ninv])
  from Cons.IH [OF p1 p2 p3 p4 p5] obtain tab' where
    t: "deal_tableau is ?deck1 ?tab1 = Inr (take (length ?deck1 - ?S) ?deck1, tab')"
      "length tab' = length ?tab1"
      "ids (concat tab') + ids (take (length ?deck1 - ?S) ?deck1) =
         ids (concat ?tab1) + ids ?deck1"
      "list_all tableau_inv tab'"
    by blast
  have tk: "take (length ?deck1 - ?S) ?deck1 =
      take (length deck - sum_list (map Suc (i # is))) deck"
    using Cons.prems(1) by (simp add: min_def)
  have "?tab1 = tab[i := tab ! i @ new]" by (simp add: empty)
  then have c1: "ids (concat ?tab1) = ids (concat tab) + ids new"
    using ids_concat_append_at [OF il, of new] by simp
  have dk: "ids ?deck1 + ids (drop ?n deck) = ids deck" by (rule ids_take_drop)
  have "ids (concat ?tab1) + ids ?deck1 = ids (concat tab) + (ids ?deck1 + ids (drop ?n deck))"
    by (simp add: c1 new(2) ac_simps)
  then have c: "ids (concat ?tab1) + ids ?deck1 = ids (concat tab) + ids deck"
    by (simp only: dk)
  have eq: "deal_tableau (i # is) deck tab =
      Inr (take (length deck - sum_list (map Suc (i # is))) deck, tab')"
  proof -
    have "deal_tableau (i # is) deck tab = deal_tableau is ?deck1 ?tab1"
      by (simp only: deal_tableau.simps new(1) sum.case prod.case)
    then show ?thesis by (simp only: t(1) tk)
  qed
  have "ids (concat tab') + ids (take (length deck - sum_list (map Suc (i # is))) deck) =
      ids (concat tab) + ids deck"
    using t(3) by (simp only: tk c)
  with eq t(2,4) show ?case by auto
qed

lemma new_deck_facts:
  "length new_deck = 52" "\<forall>c\<in>set new_deck. \<not> face_up c"
  "distinct (map ident new_deck)" "set (map ident new_deck) = UNIV"
proof -
  show "length new_deck = 52" by (simp add: new_deck_def RANKS_def)
  show "\<forall>c\<in>set new_deck. \<not> face_up c" by (auto simp: new_deck_def)
  show "distinct (map ident new_deck)" by (simp add: new_deck_def RANKS_def ident_def)
  show "set (map ident new_deck) = UNIV"
  proof -
    have "(a, b) \<in> set (map ident new_deck)" for a b
      by (cases a; cases b) (simp_all add: new_deck_def RANKS_def ident_def)
    then show ?thesis by auto
  qed
qed

lemma shuffled_deck:
  assumes "mset deck = mset new_deck"
  shows "length deck = 52" "\<forall>c\<in>set deck. \<not> face_up c" "ids deck = ids new_deck"
proof -
  show "length deck = 52" using mset_eq_length [OF assms] new_deck_facts(1) by simp
  have "set deck = set new_deck" by (rule mset_eq_setD [OF assms])
  then show "\<forall>c\<in>set deck. \<not> face_up c" using new_deck_facts(2) by simp
  have "image_mset ident (mset deck) = image_mset ident (mset new_deck)"
    by (simp only: assms)
  then show "ids deck = ids new_deck" by (simp only: ids_def mset_map)
qed

lemma initialize_deck_spec:
  assumes "mset deck = mset new_deck"
  shows "\<exists>s. initialize_deck deck = Inr s \<and> state_inv s \<and> stock s = take 24 deck \<and>
      waste s = [] \<and> foundations s = replicate 4 [] \<and> moves s = 0"
proof -
  note sh = shuffled_deck [OF assms]
  have sum: "sum_list (map Suc [0..<7]) = 28" by (simp add: upt_rec)
  have "\<exists>tab'. deal_tableau [0..<7] deck (replicate 7 []) =
        Inr (take (length deck - sum_list (map Suc [0..<7])) deck, tab') \<and>
      length tab' = length (replicate 7 ([] :: Card list)) \<and>
      ids (concat tab') + ids (take (length deck - sum_list (map Suc [0..<7])) deck) =
        ids (concat (replicate 7 ([] :: Card list))) + ids deck \<and>
      list_all tableau_inv tab'"
  proof (rule deal_tableau_spec)
    show "sum_list (map Suc [0..<7]) \<le> length deck" using sh(1) sum by simp
    show "distinct [0..<7]" by simp
    show "\<forall>i\<in>set [0..<7]. i < length (replicate 7 ([] :: Card list)) \<and>
        replicate 7 ([] :: Card list) ! i = []" by simp
    show "\<forall>c\<in>set deck. \<not> face_up c" by (rule sh(2))
    show "list_all tableau_inv (replicate 7 [])"
      by (simp add: list_all_iff tableau_inv_def face_up_suffix_def below_suffix_def)
  qed
  then obtain tab' where t: "deal_tableau [0..<7] deck (replicate 7 []) = Inr (take 24 deck, tab')"
    "length tab' = 7" "ids (concat tab') + ids (take 24 deck) = ids deck"
    "list_all tableau_inv tab'"
    unfolding sum sh(1) by auto
  let ?s = "\<lparr>stock = take 24 deck, waste = [], foundations = replicate 4 [], tableau = tab',
      moves = 0\<rparr>"
  have eq: "initialize_deck deck = Inr ?s"
    by (simp add: initialize_deck_def t(1))
  have "state_inv ?s"
  proof (rule state_invI)
    show "list_all foundation_inv (foundations ?s)"
      by (simp add: list_all_iff foundation_inv_def)
  qed (use t sh(3) in \<open>simp_all add: ac_simps\<close>)
  with eq show ?thesis by simp
qed

lemma inv_apply_op: "state_inv s \<Longrightarrow> state_inv (apply_op s opn)"
proof (cases opn)
  case Draw
  assume "state_inv s"
  then show ?thesis using Draw by (simp add: inv_draw)
next
  case (MoveToTableau fp t ci)
  assume "state_inv s"
  then show ?thesis
    using MoveToTableau inv_waste_to_tableau [of s t ci] inv_column_to_tableau [of s _ t ci]
    by (cases fp) simp_all
next
  case (MoveToFoundation fp fi)
  assume "state_inv s"
  then show ?thesis
    using MoveToFoundation inv_waste_to_foundation [of s fi] inv_column_to_foundation [of s _ fi]
    by (cases fp) simp_all
next
  case (Flip i)
  assume "state_inv s"
  then show ?thesis using Flip inv_flip [of s i] by simp
qed

lemma reachable_inv: "reachable s \<Longrightarrow> state_inv s"
proof (induction rule: reachable.induct)
  case (deal deck s)
  then show ?case using initialize_deck_spec [OF deal(1)] by auto
next
  case (step s opn)
  then show ?case by (simp add: inv_apply_op)
qed

lemma ups_apply_op:
  assumes "state_inv s" and "\<not> (opn = Draw \<and> stock s = [])"
  shows "ups (all_cards s) \<subseteq> ups (all_cards (apply_op s opn))"
proof (cases opn)
  case Draw
  then show ?thesis using assms(2) by (simp add: ups_draw)
next
  case (MoveToTableau fp t ci)
  then show ?thesis
    using assms(1) inv_waste_to_tableau [of s t ci] inv_column_to_tableau [of s _ t ci]
    by (cases fp) simp_all
next
  case (MoveToFoundation fp fi)
  then show ?thesis
    using assms(1) inv_waste_to_foundation [of s fi] inv_column_to_foundation [of s _ fi]
    by (cases fp) simp_all
next
  case (Flip i)
  then show ?thesis using ups_flip [of s i] by simp
qed

subsection \<open>Reachable example states\<close>

lemma fresh_deal_facts:
  "initialize_deck new_deck = Inr fresh_deal" "reachable fresh_deal"
  "stock fresh_deal = take 24 new_deck" "waste fresh_deal = []"
  "foundations fresh_deal = replicate 4 []"
proof -
  from initialize_deck_spec [of new_deck] obtain s where
    s: "initialize_deck new_deck = Inr s" "stock s = take 24 new_deck" "waste s = []"
      "foundations s = replicate 4 []"
    by auto
  then have e: "fresh_deal = s" by (simp add: fresh_deal_def)
  show "initialize_deck new_deck = Inr fresh_deal" using s(1) e by simp
  then show "reachable fresh_deal" by (intro reachable.deal [of new_deck]) simp_all
  show "stock fresh_deal = take 24 new_deck" "waste fresh_deal = []"
    "foundations fresh_deal = replicate 4 []"
    using s e by simp_all
qed

lemma reachable_draws: "reachable s \<Longrightarrow> reachable ((draw_from_stock ^^ n) s)"
proof (induction n)
  case 0
  then show ?case by simp
next
  case (Suc n)
  then have "reachable (apply_op ((draw_from_stock ^^ n) s) Draw)" by (intro reachable.step)
  then show ?case by simp
qed

lemma drawn_out_facts:
  "reachable drawn_out" "stock drawn_out = []"
  "waste drawn_out = map (\<lambda>c. c\<lparr>face_up := True\<rparr>) (rev (take 24 new_deck))"
proof -
  show "reachable drawn_out"
    unfolding drawn_out_def by (rule reachable_draws [OF fresh_deal_facts(2)])
  have len: "length (stock fresh_deal) = 24"
    by (simp add: fresh_deal_facts(3) new_deck_facts(1))
  have "(draw_from_stock ^^ 24) fresh_deal =
      fresh_deal\<lparr>stock := take (length (stock fresh_deal) - 24) (stock fresh_deal),
        waste := waste fresh_deal @ map (\<lambda>c. c\<lparr>face_up := True\<rparr>)
                   (rev (drop (length (stock fresh_deal) - 24) (stock fresh_deal))),
        moves := moves fresh_deal + int 24\<rparr>"
    by (rule draw_n) (simp add: len)
  then have eq: "drawn_out = fresh_deal\<lparr>stock := [],
      waste := map (\<lambda>c. c\<lparr>face_up := True\<rparr>) (rev (take 24 new_deck)),
      moves := moves fresh_deal + 24\<rparr>"
    unfolding drawn_out_def by (simp add: len fresh_deal_facts(3,4))
  show "stock drawn_out = []"
    "waste drawn_out = map (\<lambda>c. c\<lparr>face_up := True\<rparr>) (rev (take 24 new_deck))"
    by (simp_all add: eq)
qed


subsection \<open>The fifty-two cards\<close>

lemma inv_cards:
  assumes "state_inv s"
  shows "mset (map ident (all_cards s)) = mset (map ident new_deck)"
    "distinct (map ident (all_cards s))" "set (map ident (all_cards s)) = UNIV"
    "length (all_cards s) = 52"
proof -
  show m: "mset (map ident (all_cards s)) = mset (map ident new_deck)"
    using assms by (simp add: state_inv_def ids_def)
  show "distinct (map ident (all_cards s))"
    using mset_eq_imp_distinct_iff [OF m] new_deck_facts(3) by simp
  show "set (map ident (all_cards s)) = UNIV"
    using mset_eq_setD [OF m] new_deck_facts(4) by simp
  show "length (all_cards s) = 52"
    using mset_eq_length [OF m] new_deck_facts(1) by simp
qed

text \<open>
  Claim C1. In every reachable state, and in the state any operation makes of it (a draw
  or a recycle, a move from the waste or of a run to a column, a move to a foundation, a
  manual flip, with any arguments), the cards of stock, waste, foundations and columns
  together are the standard deck: as a multiset of (suit, rank) pairs they are the deck
  that was built, every pair occurs, none occurs twice, and there are 52 cards.
\<close>

theorem deck_is_conserved:
  assumes "reachable s"
  shows "mset (map ident (all_cards s)) = mset (map ident new_deck) \<and>
    distinct (map ident (all_cards s)) \<and> set (map ident (all_cards s)) = UNIV \<and>
    length (all_cards s) = 52 \<and>
    mset (map ident (all_cards (apply_op s opn))) = mset (map ident new_deck) \<and>
    distinct (map ident (all_cards (apply_op s opn))) \<and>
    set (map ident (all_cards (apply_op s opn))) = UNIV \<and>
    length (all_cards (apply_op s opn)) = 52"
proof -
  have a: "state_inv s" by (rule reachable_inv [OF assms])
  have b: "state_inv (apply_op s opn)" by (rule inv_apply_op [OF a])
  show ?thesis using inv_cards [OF a] inv_cards [OF b] by (intro conjI)
qed

theorem deck_is_conserved_witness:
  "reachable fresh_deal \<and> length (all_cards fresh_deal) = 52 \<and>
   distinct (map ident (all_cards fresh_deal)) \<and>
   length (all_cards (apply_op fresh_deal Draw)) = 52 \<and>
   distinct (map ident (all_cards (apply_op fresh_deal Draw)))"
  using deck_is_conserved [OF fresh_deal_facts(2), of Draw]
    fresh_deal_facts(2)
  by (simp del: apply_op.simps)

subsection \<open>Starting and restarting the game of text.py\<close>

lemma deal_pile_t_spec:
  "deal_pile_t k deck p =
     (take (length deck - k) deck,
      p\<lparr>cards := cards p @ rev (drop (length deck - k) deck)\<rparr>)"
proof (induction k arbitrary: deck p)
  case 0
  then show ?case by simp
next
  case (Suc k)
  show ?case
  proof (cases "deck = []")
    case True
    then show ?thesis using Suc [of "[]" p] by simp
  next
    case False
    let ?m = "length deck - Suc k"
    have m: "length (butlast deck) - k = ?m" by simp
    have tk: "take ?m (butlast deck) = take ?m deck"
      using False by (simp add: butlast_conv_take)
    have z: "?m - length (butlast deck) = 0" by simp
    have "drop ?m (butlast deck @ [last deck]) =
        drop ?m (butlast deck) @ drop (?m - length (butlast deck)) [last deck]"
      by (rule drop_append)
    then have dr: "drop ?m deck = drop ?m (butlast deck) @ [last deck]"
      unfolding z append_butlast_last_id [OF False] by (simp only: drop_0)
    have rv: "rev (drop ?m deck) = last deck # rev (drop ?m (butlast deck))"
      unfolding dr by simp
    have "deal_pile_t (Suc k) deck p = deal_pile_t k (butlast deck) (add_card p (last deck))"
      using False by simp
    also have "\<dots> = (take (length (butlast deck) - k) (butlast deck),
        (add_card p (last deck))\<lparr>cards := cards (add_card p (last deck)) @
           rev (drop (length (butlast deck) - k) (butlast deck))\<rparr>)"
      by (rule Suc)
    also have "\<dots> = (take ?m deck, p\<lparr>cards := cards p @ rev (drop ?m deck)\<rparr>)"
      unfolding m tk rv by (simp add: add_card_def)
    finally show ?thesis .
  qed
qed

lemma deal_piles_t_length: "length (snd (deal_piles_t i deck ps)) = length ps"
proof (induction ps arbitrary: i deck)
  case Nil
  then show ?case by simp
next
  case (Cons p ps)
  obtain d p' where a: "deal_pile_t (Suc i) deck p = (d, p')"
    by (cases "deal_pile_t (Suc i) deck p")
  obtain d' ps' where b: "deal_piles_t (Suc i) d ps = (d', ps')"
    by (cases "deal_piles_t (Suc i) d ps")
  have "length ps' = length ps" using Cons [of "Suc i" d] b by simp
  then show ?case by (simp add: a b del: deal_pile_t.simps)
qed

lemma initialize_game_fields:
  "tableau_piles (initialize_game s) =
     snd (deal_piles_t 0 (deck_cards s)
       (tableau_piles s @
        map (\<lambda>i. \<lparr>pile_id = i, cards = [], is_foundation = False\<rparr>) [0, 1, 2, 3, 4, 5, 6]))"
  "foundation_piles (initialize_game s) =
     foundation_piles s @
     map (\<lambda>i. \<lparr>pile_id = i, cards = [], is_foundation = True\<rparr>) [0, 1, 2, 3]"
  by (simp_all add: initialize_game_def Let_def split: prod.split)

lemma initialize_game_piles:
  "length (foundation_piles (initialize_game s)) = length (foundation_piles s) + 4"
  "length (tableau_piles (initialize_game s)) = length (tableau_piles s) + 7"
  by (simp_all add: initialize_game_fields deal_piles_t_length)


lemma restart_game_piles:
  "foundation_piles (restart_game D g) =
     map (\<lambda>p. p\<lparr>cards := []\<rparr>) (foundation_piles g) @
     map (\<lambda>i. \<lparr>pile_id = i, cards = [], is_foundation = True\<rparr>) [0, 1, 2, 3]"
  "length (tableau_piles (restart_game D g)) = length (tableau_piles g) + 7"
  by (simp_all add: restart_game_def initialize_game_piles initialize_game_fields(2))







subsection \<open>The invariant of the game of text.py\<close>

lemma length_new_deck_t: "length new_deck_t = 52"
  by (simp add: new_deck_t_def RANKS_def)

lemma shuffled_deck_t_length: "mset D = mset new_deck_t \<Longrightarrow> length D = 52"
  using mset_eq_length [of D new_deck_t] length_new_deck_t by simp

lemma deal_pile_t_count:
  "length (fst (deal_pile_t k deck p)) + length (cards (snd (deal_pile_t k deck p))) =
     length deck + length (cards p)"
  by (simp add: deal_pile_t_spec)

lemma deal_piles_t_count:
  "length (fst (deal_piles_t i deck ps)) +
     sum_list (map (\<lambda>p. length (cards p)) (snd (deal_piles_t i deck ps))) =
   length deck + sum_list (map (\<lambda>p. length (cards p)) ps)"
proof (induction ps arbitrary: i deck)
  case Nil
  then show ?case by simp
next
  case (Cons p ps)
  obtain d p' where a: "deal_pile_t (Suc i) deck p = (d, p')"
    by (cases "deal_pile_t (Suc i) deck p")
  obtain d' ps' where b: "deal_piles_t (Suc i) d ps = (d', ps')"
    by (cases "deal_piles_t (Suc i) d ps")
  have one: "length d + length (cards p') = length deck + length (cards p)"
    using deal_pile_t_count [of "Suc i" deck p] unfolding a by simp
  have two: "length d' + sum_list (map (\<lambda>p. length (cards p)) ps') =
      length d + sum_list (map (\<lambda>p. length (cards p)) ps)"
    using Cons [of "Suc i" d] unfolding b by simp
  show ?case using one two by (simp add: a b del: deal_pile_t.simps)
qed

lemma initialize_game_rest:
  "deck_cards (initialize_game s) =
     fst (deal_piles_t 0 (deck_cards s)
       (tableau_piles s @
        map (\<lambda>i. \<lparr>pile_id = i, cards = [], is_foundation = False\<rparr>) [0, 1, 2, 3, 4, 5, 6]))"
  "waste_pile (initialize_game s) = waste_pile s"
  by (simp_all add: initialize_game_def Let_def split: prod.split)

lemma initialize_game_count: "card_count_t (initialize_game s) = card_count_t s"
proof -
  let ?tps = "tableau_piles s @
        map (\<lambda>i. \<lparr>pile_id = i, cards = [], is_foundation = False\<rparr>) [0, 1, 2, 3, 4, 5, 6]"
  have t: "sum_list (map (\<lambda>p. length (cards p)) ?tps) =
      sum_list (map (\<lambda>p. length (cards p)) (tableau_piles s))" by simp
  have f: "sum_list (map (\<lambda>p. length (cards p)) (foundation_piles (initialize_game s))) =
      sum_list (map (\<lambda>p. length (cards p)) (foundation_piles s))"
    by (simp add: initialize_game_fields(2))
  have "length (deck_cards (initialize_game s)) +
      sum_list (map (\<lambda>p. length (cards p)) (tableau_piles (initialize_game s))) =
      length (deck_cards s) + sum_list (map (\<lambda>p. length (cards p)) ?tps)"
    unfolding initialize_game_rest(1) initialize_game_fields(1) by (rule deal_piles_t_count)
  then show ?thesis
    unfolding card_count_t_def f initialize_game_rest(2) t by linarith
qed

lemma enumerated_last:
  assumes m: "map f xs = map (\<lambda>i. int i + 1) [0..<length xs]" and ne: "xs \<noteq> []"
  shows "f (last xs) = int (length xs)"
proof -
  have n: "[0..<length xs] \<noteq> []" using ne by simp
  have "f (last xs) = last (map f xs)" by (rule last_map [OF ne, symmetric])
  also have "\<dots> = last (map (\<lambda>i. int i + 1) [0..<length xs])" by (simp only: m)
  also have "\<dots> = int (last [0..<length xs]) + 1" by (rule last_map [OF n])
  also have "last [0..<length xs] = length xs - 1" using ne by (simp add: last_upt)
  finally show ?thesis using ne by (cases xs) simp_all
qed


lemma foundation_inv_t_remove:
  assumes "foundation_inv_t p"
  shows "foundation_inv_t (remove_card p)"
proof -
  let ?xs = "cards p"
  have m: "map get_rank_value ?xs = map (\<lambda>i. int i + 1) [0..<length ?xs]"
    using assms unfolding foundation_inv_t_def by blast
  have u: "butlast [0..<length ?xs] = [0..<length (butlast ?xs)]"
    by (cases "length (cards p)") simp_all
  have "map get_rank_value (butlast ?xs) = butlast (map get_rank_value ?xs)"
    by (rule map_butlast)
  also have "\<dots> = butlast (map (\<lambda>i. int i + 1) [0..<length ?xs])" by (simp only: m)
  also have "\<dots> = map (\<lambda>i. int i + 1) (butlast [0..<length ?xs])"
    by (rule map_butlast [symmetric])
  finally have "map get_rank_value (butlast ?xs) =
      map (\<lambda>i. int i + 1) [0..<length (butlast ?xs)]" unfolding u .
  moreover have "is_foundation p" using assms unfolding foundation_inv_t_def by blast
  ultimately show ?thesis unfolding foundation_inv_t_def remove_card_def by simp
qed

lemma foundation_inv_t_add:
  assumes inv: "foundation_inv_t p" and acc: "can_accept_card p c"
  shows "foundation_inv_t (add_card p c)"
proof -
  let ?xs = "cards p"
  have fo: "is_foundation p" using inv unfolding foundation_inv_t_def by blast
  have m: "map get_rank_value ?xs = map (\<lambda>i. int i + 1) [0..<length ?xs]"
    using inv unfolding foundation_inv_t_def by blast
  have rv: "get_rank_value c = int (length ?xs) + 1"
  proof (cases "?xs = []")
    case True
    then have "rank_t c = ACE" using acc fo by (simp add: can_accept_card_def is_empty_def)
    then show ?thesis using True by (simp add: get_rank_value_def)
  next
    case False
    then have "get_rank_value c = get_rank_value (last ?xs) + 1"
      using acc fo by (simp add: can_accept_card_def is_empty_def get_top_card_def)
    then show ?thesis unfolding enumerated_last [OF m False] .
  qed
  have "map get_rank_value (?xs @ [c]) =
      map (\<lambda>i. int i + 1) [0..<length ?xs] @ [int (length ?xs) + 1]"
    by (simp only: map_append m list.map rv)
  also have "\<dots> = map (\<lambda>i. int i + 1) [0..<length (?xs @ [c])]" by simp
  finally show ?thesis unfolding foundation_inv_t_def add_card_def using fo by simp
qed

lemma own_top_not_accepted: "cards p \<noteq> [] \<Longrightarrow> \<not> can_accept_card p (last (cards p))"
  by (simp add: can_accept_card_def is_empty_def get_top_card_def)

lemma sum_list_map_update:
  "i < length xs \<Longrightarrow>
     sum_list (map f (xs[i := x])) + f (xs ! i) = sum_list (map f xs) + (f x :: nat)"
proof (induction xs arbitrary: i)
  case Nil
  then show ?case by simp
next
  case (Cons a xs)
  show ?case
  proof (cases i)
    case 0
    then show ?thesis by simp
  next
    case (Suc j)
    then have "j < length xs" using Cons.prems by simp
    from Cons.IH [OF this] show ?thesis using Suc by simp
  qed
qed

lemma put_pile_fields:
  "deck_cards (put_pile s r p) = deck_cards s" "waste_pile (put_pile s r p) = waste_pile s"
  "length (foundation_piles (put_pile s r p)) = length (foundation_piles s)"
  "length (tableau_piles (put_pile s r p)) = length (tableau_piles s)"
  "selected_card (put_pile s r p) = selected_card s"
  by (cases r; simp add: put_pile_def)+

lemma put_pile_valid: "valid_ref (put_pile s r p) r' = valid_ref s r'"
  by (cases r'; simp add: valid_ref_def put_pile_fields)

lemma get_put_pile:
  "valid_ref s r \<Longrightarrow> get_pile (put_pile s r p) r' = (if r' = r then p else get_pile s r')"
  by (cases r; cases r'; simp add: get_pile_def put_pile_def valid_ref_def)

lemma put_pile_count:
  assumes "valid_ref s r"
  shows "card_count_t (put_pile s r p) + length (cards (get_pile s r)) =
    card_count_t s + length (cards p)"
proof (cases r)
  case (FoundationPile i)
  then have i: "i < length (foundation_piles s)" using assms by (simp add: valid_ref_def)
  from sum_list_map_update [OF i, of "\<lambda>p. length (cards p)" p]
  show ?thesis by (simp add: FoundationPile card_count_t_def put_pile_def get_pile_def)
next
  case (TableauPile i)
  then have i: "i < length (tableau_piles s)" using assms by (simp add: valid_ref_def)
  from sum_list_map_update [OF i, of "\<lambda>p. length (cards p)" p]
  show ?thesis by (simp add: TableauPile card_count_t_def put_pile_def get_pile_def)
qed

lemma put_pile_foundation_inv:
  assumes "list_all foundation_inv_t (foundation_piles s)"
    and "\<And>i. r = FoundationPile i \<Longrightarrow> foundation_inv_t p"
  shows "list_all foundation_inv_t (foundation_piles (put_pile s r p))"
proof (cases r)
  case (FoundationPile i)
  have "set ((foundation_piles s)[i := p]) \<subseteq> insert p (set (foundation_piles s))"
    by (rule set_update_subset_insert)
  then show ?thesis
    using assms(1) assms(2) [OF FoundationPile]
    by (auto simp: FoundationPile put_pile_def list_all_iff)
next
  case (TableauPile i)
  then show ?thesis using assms(1) by (simp add: put_pile_def)
qed

lemma get_pile_foundation_inv:
  "list_all foundation_inv_t (foundation_piles s) \<Longrightarrow> valid_ref s (FoundationPile i) \<Longrightarrow>
     foundation_inv_t (get_pile s (FoundationPile i))"
  by (simp add: list_all_length get_pile_def valid_ref_def)

lemma initialize_game_inv:
  assumes "7 * length (foundation_piles s) = 4 * length (tableau_piles s)"
    and "card_count_t s = 52" and "list_all foundation_inv_t (foundation_piles s)"
  shows "game_inv_t (initialize_game s)"
  unfolding game_inv_t_def initialize_game_count
  using assms
  by (simp add: initialize_game_piles initialize_game_fields(2) foundation_inv_t_def)

lemma new_game_t_inv: "length D = 52 \<Longrightarrow> game_inv_t (new_game_t D)"
  unfolding new_game_t_def by (rule initialize_game_inv) (simp_all add: card_count_t_def)

lemma restart_game_inv:
  assumes "game_inv_t g" and "length D = 52"
  shows "game_inv_t (restart_game D g)"
  unfolding restart_game_def
proof (rule initialize_game_inv)
  let ?s = "g\<lparr>deck_cards := D, waste_pile := [],
          tableau_piles := map (\<lambda>p. p\<lparr>cards := []\<rparr>) (tableau_piles g),
          foundation_piles := map (\<lambda>p. p\<lparr>cards := []\<rparr>) (foundation_piles g)\<rparr>"
  show "7 * length (foundation_piles ?s) = 4 * length (tableau_piles ?s)"
    using assms(1) by (simp add: game_inv_t_def)
  show "card_count_t ?s = 52" using assms(2) by (simp add: card_count_t_def o_def)
  show "list_all foundation_inv_t (foundation_piles ?s)"
    using assms(1) by (simp add: game_inv_t_def list_all_iff foundation_inv_t_def)
qed

lemma game_inv_t_selection:
  "game_inv_t (g\<lparr>selected_card := c, selected_pile := r\<rparr>) = game_inv_t g"
  by (simp add: game_inv_t_def card_count_t_def)

lemma draw_from_deck_inv:
  assumes "game_inv_t g"
    and "length (shuffle (deck_cards g @ waste_pile g)) = length (deck_cards g @ waste_pile g)"
  shows "game_inv_t (draw_from_deck shuffle g)"
proof (cases "deck_cards g = []")
  case True
  then show ?thesis using assms by (simp add: draw_from_deck_def game_inv_t_def card_count_t_def)
next
  case False
  then obtain ys y where "deck_cards g = ys @ [y]" by (cases "deck_cards g" rule: rev_cases) auto
  then show ?thesis using assms(1)
    by (simp add: draw_from_deck_def game_inv_t_def card_count_t_def)
qed

lemma move_card_inv:
  assumes inv: "game_inv_t g" and vf: "valid_ref g from_pile" and vt: "valid_ref g to_pile"
    and D: "length D = 52"
  shows "game_inv_t (move_card (restart_game D) g from_pile to_pile)"
proof (cases "selected_card g = None \<or> is_empty (get_pile g from_pile)")
  case True
  then show ?thesis using inv by (simp add: move_card_def)
next
  case False
  let ?fp = "get_pile g from_pile"
  have ne: "cards ?fp \<noteq> []" using False by (simp add: is_empty_def)
  obtain sc where sel: "selected_card g = Some sc" "\<not> is_empty ?fp" using False by auto
  define c where "c = last (cards ?fp)"
  have top: "get_top_card ?fp = Some c" using ne by (simp add: get_top_card_def c_def)
  show ?thesis
  proof (cases "can_accept_card (get_pile g to_pile) c")
    case no: False
    have "move_card (restart_game D) g from_pile to_pile =
        g\<lparr>selected_card := None, selected_pile := None\<rparr>"
      using sel top no by (simp add: move_card_def)
    then show ?thesis using inv by (simp only: game_inv_t_selection)
  next
    case yes: True
    have diff: "to_pile \<noteq> from_pile"
      using yes own_top_not_accepted [OF ne] unfolding c_def by blast
    define s1 where "s1 = put_pile g from_pile (remove_card ?fp)"
    define s2 where "s2 = put_pile s1 to_pile (add_card (get_pile s1 to_pile) c)"
    define s3 where "s3 = s2\<lparr>moves_t := moves_t s2 + 1,
        move_history := move_history s2 @ [Move_entry from_pile to_pile c]\<rparr>"
    have eq: "move_card (restart_game D) g from_pile to_pile =
        (if check_win s3 then restart_game D s3 else s3)
          \<lparr>selected_card := None, selected_pile := None\<rparr>"
      using sel top yes by (simp add: move_card_def Let_def s1_def s2_def s3_def)
    have vt1: "valid_ref s1 to_pile" unfolding s1_def put_pile_valid by (rule vt)
    have same: "get_pile s1 to_pile = get_pile g to_pile"
      unfolding s1_def using diff by (simp add: get_put_pile [OF vf])
    note d = inv [unfolded game_inv_t_def]
    have c1: "card_count_t s1 + 1 = card_count_t g"
      using put_pile_count [OF vf, of "remove_card ?fp"] ne
      unfolding s1_def [symmetric] by (cases "cards ?fp" rule: rev_cases) (simp_all add: remove_card_def)
    have c2: "card_count_t s2 = card_count_t s1 + 1"
      using put_pile_count [OF vt1, of "add_card (get_pile s1 to_pile) c"]
      unfolding s2_def [symmetric] by (simp add: add_card_def)
    have f1: "list_all foundation_inv_t (foundation_piles s1)"
      unfolding s1_def
    proof (rule put_pile_foundation_inv)
      show "list_all foundation_inv_t (foundation_piles g)" using d by simp
      fix i assume "from_pile = FoundationPile i"
      then have "foundation_inv_t ?fp" using get_pile_foundation_inv [of g i] d vf by simp
      then show "foundation_inv_t (remove_card ?fp)" by (rule foundation_inv_t_remove)
    qed
    have f2: "list_all foundation_inv_t (foundation_piles s2)"
      unfolding s2_def
    proof (rule put_pile_foundation_inv [OF f1])
      fix i assume "to_pile = FoundationPile i"
      then have "foundation_inv_t (get_pile g to_pile)"
        using get_pile_foundation_inv [of g i] d vt by simp
      then show "foundation_inv_t (add_card (get_pile s1 to_pile) c)"
        unfolding same using yes by (rule foundation_inv_t_add)
    qed
    have len: "length (foundation_piles s2) = length (foundation_piles g)"
      "length (tableau_piles s2) = length (tableau_piles g)"
      by (simp_all add: s2_def s1_def put_pile_fields)
    have "game_inv_t s2"
      unfolding game_inv_t_def using d c1 c2 f2 len by simp
    then have i3: "game_inv_t s3" by (simp add: s3_def game_inv_t_def card_count_t_def)
    have "game_inv_t (if check_win s3 then restart_game D s3 else s3)"
      using i3 restart_game_inv [OF i3 D] by simp
    then show ?thesis unfolding eq by (simp only: game_inv_t_selection)
  qed
qed

lemma reachable_t_inv: "reachable_t g \<Longrightarrow> game_inv_t g"
proof (induction rule: reachable_t.induct)
  case (start D)
  then show ?case by (intro new_game_t_inv shuffled_deck_t_length)
next
  case (draw g shuffle)
  have "length (shuffle (deck_cards g @ waste_pile g)) = length (deck_cards g @ waste_pile g)"
    using draw(2) by (intro mset_eq_length) simp
  then show ?case by (intro draw_from_deck_inv draw.IH)
next
  case (select g c r)
  then show ?case by (simp only: game_inv_t_selection)
next
  case (move g from_pile to_pile D)
  then show ?case by (intro move_card_inv shuffled_deck_t_length)
next
  case (restart g D)
  then show ?case by (intro restart_game_inv shuffled_deck_t_length)
qed




lemma move_card_valid:
  assumes "valid_ref g r"
  shows "valid_ref (move_card (restart_game D) g f t) r"
proof -
  have a: "length (foundation_piles g) \<le>
      length (foundation_piles (move_card (restart_game D) g f t))"
    by (simp add: move_card_def Let_def put_pile_fields restart_game_piles(1)
        split: option.split)
  have b: "length (tableau_piles g) \<le>
      length (tableau_piles (move_card (restart_game D) g f t))"
    by (simp add: move_card_def Let_def put_pile_fields restart_game_piles(2)
        split: option.split)
  show ?thesis using assms a b by (cases r) (simp_all add: valid_ref_def)
qed

lemma play_t_reachable:
  assumes "reachable_t g" and "list_all (\<lambda>(f, t). valid_ref g f \<and> valid_ref g t) ms"
  shows "reachable_t (play_t ms g)"
  using assms
proof (induction ms arbitrary: g)
  case Nil
  then show ?case by simp
next
  case (Cons m ms)
  obtain f t where m: "m = (f, t)" by (cases m)
  let ?g = "g\<lparr>selected_card := get_top_card (get_pile g f), selected_pile := Some f\<rparr>"
  let ?h = "move_card (restart_game new_deck_t) ?g f t"
  have v: "valid_ref ?g r = valid_ref g r" for r by (cases r) (simp_all add: valid_ref_def)
  have "reachable_t ?g" by (rule reachable_t.select [OF Cons.prems(1)])
  moreover have "valid_ref ?g f" "valid_ref ?g t" using Cons.prems(2) by (simp_all add: m v)
  ultimately have r: "reachable_t ?h" by (rule reachable_t.move) simp
  have "list_all (\<lambda>(f, t). valid_ref ?h f \<and> valid_ref ?h t) ms"
    unfolding list_all_iff
  proof (clarify, rule conjI)
    fix a b assume "(a, b) \<in> set ms"
    then have "valid_ref g a" "valid_ref g b"
      using Cons.prems(2) by (auto simp: list_all_iff)
    then have va: "valid_ref ?g a" and vb: "valid_ref ?g b" by (simp_all only: v)
    show "valid_ref ?h a" by (rule move_card_valid [OF va])
    show "valid_ref ?h b" by (rule move_card_valid [OF vb])
  qed
  from Cons.IH [OF r this] show ?case by (simp add: m)
qed

lemma second_game_t_reachable: "reachable_t second_game_t"
  unfolding second_game_t_def first_game_t_def
  by (intro reachable_t.restart reachable_t.start) simp_all

lemma home_after_restart_reachable: "reachable_t home_after_restart"
  unfolding home_after_restart_def
proof (rule play_t_reachable [OF second_game_t_reachable])
  show "list_all (\<lambda>(f, t). valid_ref second_game_t f \<and> valid_ref second_game_t t) home_moves"
    by code_simp
qed

lemma home_after_restart_inv: "game_inv_t home_after_restart"
  by (rule reachable_t_inv [OF home_after_restart_reachable])

subsection \<open>Winning\<close>






subsection \<open>Face flags\<close>

lemma ups_subset_idents: "ups xs \<subseteq> set (map ident xs)"
  by (auto simp: ups_def)

lemma ups_face_down [simp]: "ups (map (\<lambda>c. c\<lparr>face_up := False\<rparr>) xs) = {}"
  by (induction xs) simp_all

lemma ups_face_up [simp]: "ups (map (\<lambda>c. c\<lparr>face_up := True\<rparr>) xs) = set (map ident xs)"
  by (induction xs) simp_all

lemma recycle_ups:
  assumes inv: "state_inv s" and e: "stock s = []"
  shows "ups (all_cards (draw_from_stock s)) = ups (all_cards s) - ups (waste s)"
proof -
  have eq: "draw_from_stock s =
      s\<lparr>waste := [], stock := map (\<lambda>c. c\<lparr>face_up := False\<rparr>) (rev (waste s))\<rparr>"
    using e by (simp add: draw_from_stock_def recycle_eq)
  let ?rest = "concat (foundations s) @ concat (tableau s)"
  have "distinct (map ident (all_cards s))" by (rule inv_cards [OF inv])
  then have "distinct (map ident (waste s) @ map ident ?rest)"
    by (simp add: all_cards_def e)
  then have "set (map ident (waste s)) \<inter> set (map ident ?rest) = {}"
    by (simp only: distinct_append)
  then have dis: "ups (waste s) \<inter> ups ?rest = {}"
    using ups_subset_idents [of "waste s"] ups_subset_idents [of ?rest] by blast
  have a: "ups (all_cards (draw_from_stock s)) = ups ?rest"
    unfolding eq by (simp add: all_cards_def)
  have b: "ups (all_cards s) = ups (waste s) \<union> ups ?rest"
    by (simp add: all_cards_def e)
  show ?thesis unfolding a b using dis by blast
qed

text \<open>
  Claim C9, as amended. In a reachable state every operation other than the recycle (a
  draw on an empty stock) leaves every face-up card face-up: the identities of the
  face-up cards after the operation include those before it. The recycle turns the waste
  cards, which are face-up, face-down and puts them on the stock; it leaves the face
  flags of all cards in columns and foundations as they are.
\<close>

theorem face_up_is_kept:
  "(reachable s \<and> \<not> (opn = Draw \<and> stock s = []) \<longrightarrow>
      ups (all_cards s) \<subseteq> ups (all_cards (apply_op s opn))) \<and>
   (reachable s \<and> stock s = [] \<longrightarrow>
      ups (all_cards (apply_op s Draw)) = ups (all_cards s) - ups (waste s) \<and>
      ups (waste s) = set (map ident (waste s)) \<and>
      tableau (apply_op s Draw) = tableau s \<and>
      foundations (apply_op s Draw) = foundations s)"
proof (intro conjI impI)
  assume a: "reachable s \<and> \<not> (opn = Draw \<and> stock s = [])"
  then have "state_inv s" by (simp add: reachable_inv)
  then show "ups (all_cards s) \<subseteq> ups (all_cards (apply_op s opn))"
    using a by (intro ups_apply_op) simp_all
next
  assume a: "reachable s \<and> stock s = []"
  then have inv: "state_inv s" by (simp add: reachable_inv)
  have eq: "draw_from_stock s =
      s\<lparr>waste := [], stock := map (\<lambda>c. c\<lparr>face_up := False\<rparr>) (rev (waste s))\<rparr>"
    using a by (simp add: draw_from_stock_def recycle_eq)
  show "ups (all_cards (apply_op s Draw)) = ups (all_cards s) - ups (waste s)"
    using recycle_ups [OF inv] a by simp
  have "list_all face_up (waste s)" by (rule state_invD(5) [OF inv])
  then have "filter face_up (waste s) = waste s" by (simp add: list_all_iff)
  then show "ups (waste s) = set (map ident (waste s))" by (simp add: ups_def)
  show "tableau (apply_op s Draw) = tableau s" by (simp add: eq)
  show "foundations (apply_op s Draw) = foundations s" by (simp add: eq)
qed

lemma jack_of_hearts_drawn:
  "(HEART, JACK) \<in> set (map ident (waste drawn_out))"
  by (simp add: drawn_out_facts(3) new_deck_def RANKS_def ident_def o_def)

theorem face_up_is_kept_witness:
  "reachable fresh_deal \<and> stock fresh_deal \<noteq> [] \<and>
   ups (all_cards fresh_deal) \<subseteq> ups (all_cards (apply_op fresh_deal Draw)) \<and>
   reachable drawn_out \<and> stock drawn_out = [] \<and>
   ups (all_cards (apply_op drawn_out Draw)) = ups (all_cards drawn_out) - ups (waste drawn_out)"
proof -
  have ne: "stock fresh_deal \<noteq> []"
    by (simp add: fresh_deal_facts(3) new_deck_def RANKS_def)
  show ?thesis
    using face_up_is_kept [of fresh_deal Draw] face_up_is_kept [of drawn_out Draw]
      fresh_deal_facts(2) drawn_out_facts(1,2) ne
    by (simp del: apply_op.simps)
qed

text \<open>
  The recycle turns a face-up card face-down: after the deal of the unshuffled deck and 24
  draws the stock is empty and the jack of hearts lies face-up in the waste; the next
  draw recycles, and the jack of hearts is face-down.
\<close>

theorem recycle_turns_face_down_counterexample:
  "reachable drawn_out \<and> (HEART, JACK) \<in> ups (all_cards drawn_out) \<and>
   (HEART, JACK) \<notin> ups (all_cards (apply_op drawn_out Draw))"
proof -
  have inv: "state_inv drawn_out" by (rule reachable_inv [OF drawn_out_facts(1)])
  have "list_all face_up (waste drawn_out)" by (rule state_invD(5) [OF inv])
  then have "filter face_up (waste drawn_out) = waste drawn_out" by (simp add: list_all_iff)
  then have w: "(HEART, JACK) \<in> ups (waste drawn_out)"
    using jack_of_hearts_drawn by (simp add: ups_def)
  then have "(HEART, JACK) \<in> ups (all_cards drawn_out)" by (simp add: ups_all_cards)
  moreover have "(HEART, JACK) \<notin> ups (all_cards (apply_op drawn_out Draw))"
    using recycle_ups [OF inv drawn_out_facts(2)] w by simp
  ultimately show ?thesis using drawn_out_facts(1) by simp
qed

subsection \<open>A move of a column onto itself\<close>

lemma own_column_refused:
  assumes len: "length (tableau s) = 7" and inv: "list_all tableau_inv (tableau s)"
    and same: "to_pile_idx = i \<or> to_pile_idx = i - 7"
  shows "move_to_tableau s (FromTableau i) to_pile_idx card_idx =
     (if 0 \<le> i \<and> i < 7 \<and> card_idx < - int (length (tableau s ! nat i))
      then Inl IndexError else Inr False, s)"
proof (cases "0 \<le> i \<and> i < 7")
  case False
  then show ?thesis by (auto simp: move_to_tableau_def)
next
  case True
  let ?p = "tableau s ! nat i"
  have f: "py_index (tableau s) i = Some (nat i)"
    using True len by (simp add: py_index_def)
  have t: "py_index (tableau s) to_pile_idx = Some (nat i)"
    using True len same by (auto simp: py_index_def)
  have "nat i < length (tableau s)" using True len by auto
  then have pinv: "tableau_inv ?p"
    using inv by (simp add: list_all_length)
  have no: "\<not> can_place_on_tableau (?p ! k) ?p" if "py_index ?p card_idx = Some k" "face_up (?p ! k)" for k
    using own_run_not_placeable [OF pinv py_index_lt [OF that(1)] that(2)] .
  have none: "py_index ?p card_idx = None \<longleftrightarrow>
      \<not> (card_idx < int (length ?p)) \<or> card_idx < - int (length ?p)"
    by (auto simp: py_index_def Let_def)
  show ?thesis
    using True no none
    by (simp add: move_from_column [OF _ _ f] t split: option.split) auto
qed

text \<open>
  Claim C10. In a state with seven columns that all satisfy the tableau invariant (the
  face-up suffix strictly descending in rank and alternating in colour, every card below
  it face-down), a call of \<open>move_to_tableau\<close> whose target is the source column itself
  (named by the same index, or by the negative index of the same column) never reaches
  the branch that extends and deletes: the state is unchanged and, for every card index
  from zero upwards, the call returns \<open>False\<close>. Every reachable state has seven columns
  that satisfy the invariant. The last conjunct gives the outcome for every integer: a
  card index below minus the length of the column, which the presentation layer never
  passes, makes \<open>pile[card_idx]\<close> raise before any change.
\<close>

theorem same_pile_move_refused:
  "(reachable s \<longrightarrow> length (tableau s) = 7 \<and> list_all tableau_inv (tableau s)) \<and>
   (length (tableau s) = 7 \<and> list_all tableau_inv (tableau s) \<and>
    (to_pile_idx = i \<or> to_pile_idx = i - 7) \<longrightarrow>
      snd (move_to_tableau s (FromTableau i) to_pile_idx card_idx) = s \<and>
      fst (move_to_tableau s (FromTableau i) to_pile_idx card_idx) \<noteq> Inr True \<and>
      (0 \<le> card_idx \<longrightarrow>
         move_to_tableau s (FromTableau i) to_pile_idx card_idx = (Inr False, s)) \<and>
      move_to_tableau s (FromTableau i) to_pile_idx card_idx =
        (if 0 \<le> i \<and> i < 7 \<and> card_idx < - int (length (tableau s ! nat i))
         then Inl IndexError else Inr False, s))"
proof (intro conjI impI)
  assume "reachable s"
  then have "state_inv s" by (rule reachable_inv)
  then show "length (tableau s) = 7" "list_all tableau_inv (tableau s)"
    by (rule state_invD)+
next
  assume a: "length (tableau s) = 7 \<and> list_all tableau_inv (tableau s) \<and>
    (to_pile_idx = i \<or> to_pile_idx = i - 7)"
  then have eq: "move_to_tableau s (FromTableau i) to_pile_idx card_idx =
        (if 0 \<le> i \<and> i < 7 \<and> card_idx < - int (length (tableau s ! nat i))
         then Inl IndexError else Inr False, s)"
    using own_column_refused [of s to_pile_idx i card_idx] by blast
  show "move_to_tableau s (FromTableau i) to_pile_idx card_idx =
        (if 0 \<le> i \<and> i < 7 \<and> card_idx < - int (length (tableau s ! nat i))
         then Inl IndexError else Inr False, s)"
    by (rule eq)
  show "snd (move_to_tableau s (FromTableau i) to_pile_idx card_idx) = s"
    by (simp add: eq)
  show "fst (move_to_tableau s (FromTableau i) to_pile_idx card_idx) \<noteq> Inr True"
    by (simp add: eq)
  show "move_to_tableau s (FromTableau i) to_pile_idx card_idx = (Inr False, s)"
    if "0 \<le> card_idx"
  proof -
    have "\<not> card_idx < - int (length (tableau s ! nat i))" using that by simp
    then show ?thesis by (simp add: eq)
  qed
qed

theorem same_pile_move_refused_witness:
  "length (tableau run_of_three) = 7 \<and> list_all tableau_inv (tableau run_of_three) \<and>
   move_to_tableau run_of_three (FromTableau 0) 0 1 = (Inr False, run_of_three) \<and>
   reachable fresh_deal \<and> list_all tableau_inv (tableau fresh_deal) \<and>
   move_to_tableau fresh_deal (FromTableau 3) 3 2 = (Inr False, fresh_deal)"
proof -
  have a: "length (tableau run_of_three) = 7" by (simp add: run_of_three_def)
  have b: "list_all tableau_inv (tableau run_of_three)"
    by (simp add: run_of_three_def tableau_inv_def face_up_suffix_def below_suffix_def
        color_def)
  show ?thesis
    using same_pile_move_refused [of run_of_three 0 0 1]
      same_pile_move_refused [of fresh_deal 3 3 2] a b fresh_deal_facts(2)
    by simp
qed

end
